theory Spec2Isabelle
  imports Complex_Main "HOL-Library.Word"
begin

unbundle bit_operations_syntax

section \<open>Numbers and typed arrays\<close>

text \<open>
  The program computes on \<^verbatim>\<open>Float32Array\<close> buffers. Samples are idealised: a finite
  sample is an exact real number (no rounding, no overflow, no signed zero), and every
  non-finite value is the single value \<open>NaN\<close>. \<open>NaN\<close> is what JavaScript stores when
  an array is read out of range (the read gives \<^verbatim>\<open>undefined\<close>), and it propagates through
  arithmetic.
\<close>

datatype sample = Fin real | NaN

instantiation sample :: "{zero, plus, minus, uminus, times, inverse}"
begin

definition zero_sample :: sample where
  "zero_sample = Fin 0"

fun plus_sample :: "sample \<Rightarrow> sample \<Rightarrow> sample" where
  "plus_sample (Fin a) (Fin b) = Fin (a + b)"
| "plus_sample _ _ = NaN"

fun minus_sample :: "sample \<Rightarrow> sample \<Rightarrow> sample" where
  "minus_sample (Fin a) (Fin b) = Fin (a - b)"
| "minus_sample _ _ = NaN"

fun uminus_sample :: "sample \<Rightarrow> sample" where
  "uminus_sample (Fin a) = Fin (- a)"
| "uminus_sample NaN = NaN"

fun times_sample :: "sample \<Rightarrow> sample \<Rightarrow> sample" where
  "times_sample (Fin a) (Fin b) = Fin (a * b)"
| "times_sample _ _ = NaN"

fun divide_sample :: "sample \<Rightarrow> sample \<Rightarrow> sample" where
  "divide_sample (Fin a) (Fin b) = (if b = 0 then NaN else Fin (a / b))"
| "divide_sample _ _ = NaN"

fun inverse_sample :: "sample \<Rightarrow> sample" where
  "inverse_sample (Fin a) = (if a = 0 then NaN else Fin (1 / a))"
| "inverse_sample NaN = NaN"

instance ..

end

text \<open>\<^verbatim>\<open>a > b\<close> on samples: a comparison with \<open>NaN\<close> is false.\<close>

fun sample_gt :: "sample \<Rightarrow> sample \<Rightarrow> bool" where
  "sample_gt (Fin a) (Fin b) = (a > b)"
| "sample_gt _ _ = False"

text \<open>
  Reading a typed array out of range gives \<^verbatim>\<open>undefined\<close>, which is \<open>NaN\<close> once it is
  used as a number; writing out of range is ignored. \<open>rd\<close> and \<open>st\<close> take an index that
  is a natural number by construction, \<open>rdi\<close> and \<open>sti\<close> one that may be negative.
\<close>

definition rd :: "sample list \<Rightarrow> nat \<Rightarrow> sample" where
  "rd xs i = (if i < length xs then xs ! i else NaN)"

definition st :: "sample list \<Rightarrow> nat \<Rightarrow> sample \<Rightarrow> sample list" where
  "st xs i v = xs[i := v]"

definition rdi :: "sample list \<Rightarrow> int \<Rightarrow> sample" where
  "rdi xs i = (if i < 0 then NaN else rd xs (nat i))"

definition sti :: "sample list \<Rightarrow> int \<Rightarrow> sample \<Rightarrow> sample list" where
  "sti xs i v = (if i < 0 then xs else st xs (nat i) v)"

text \<open>
  What the program can throw, one constructor for each \<^verbatim>\<open>throw\<close> of the source, named
  after its message. \<open>InvalidTypedArrayLength\<close> is the built-in error of
  \<^verbatim>\<open>new Float32Array(n)\<close> for a negative \<open>n\<close> and of a view that leaves its buffer;
  \<open>InferenceFailed\<close> is a rejection by the network session, which is outside the
  program; \<open>CannotReadUndefined\<close> is the built-in error of reading a property of
  \<^verbatim>\<open>undefined\<close>. \<open>NotModelled\<close> is no error of the program: it marks an input on which
  JavaScript goes on computing with \<^verbatim>\<open>undefined\<close>, a fractional size or an infinite
  one (a shape with too few dimensions, a buffer whose length is no multiple of the row
  length), which the embedding does not follow.
\<close>

datatype error =
    FftSizeNotPowerOfTwo
  | IstftFreqsMismatch
  | ShapesMustMatch
  | OffsetNegative
  | OffsetNotBelowTotalLength
  | TargetLengthBelowLength
  | OutputSizeMismatch
  | TensorSmallerThanReference
  | LongerThanTrainingLength
  | InvalidTypedArrayLength
  | InferenceFailed
  | CannotReadUndefined
  | NotModelled

text \<open>
  A computation that can throw returns \<open>error + 'a\<close>; one that can also run forever
  returns \<open>(error + 'a) option\<close>, where \<open>None\<close> is not returning.
\<close>

type_synonym 'a res = "(error + 'a) option"

definition bind_err :: "error + 'a \<Rightarrow> ('a \<Rightarrow> error + 'b) \<Rightarrow> error + 'b" where
  "bind_err m f = (case m of Inl e \<Rightarrow> Inl e | Inr x \<Rightarrow> f x)"

definition bind_res :: "'a res \<Rightarrow> ('a \<Rightarrow> 'b res) \<Rightarrow> 'b res" where
  "bind_res m f = (case m of None \<Rightarrow> None | Some (Inl e) \<Rightarrow> Some (Inl e) | Some (Inr x) \<Rightarrow> f x)"

fun foldM :: "('a \<Rightarrow> 's \<Rightarrow> 's res) \<Rightarrow> 'a list \<Rightarrow> 's \<Rightarrow> 's res" where
  "foldM f [] s = Some (Inr s)"
| "foldM f (x # xs) s = bind_res (f x s) (foldM f xs)"

text \<open>\<^verbatim>\<open>new Float32Array(n)\<close>: \<open>n\<close> zero samples, an error for a negative \<open>n\<close>.\<close>

definition zeros :: "nat \<Rightarrow> sample list" where
  "zeros n = replicate n 0"

definition alloc :: "int \<Rightarrow> error + sample list" where
  "alloc n = (if n < 0 then Inl InvalidTypedArrayLength else Inr (zeros (nat n)))"

text \<open>
  The bitwise operators of JavaScript work on the 32-bit two's complement value of
  their operands.
\<close>

definition js_and :: "int \<Rightarrow> int \<Rightarrow> int" where
  "js_and a b = sint ((word_of_int a :: 32 word) AND word_of_int b)"

definition js_shr1 :: "int \<Rightarrow> int" where
  "js_shr1 a = sint (signed_drop_bit 1 (word_of_int a :: 32 word))"

definition js_shl1 :: "int \<Rightarrow> int" where
  "js_shl1 a = sint (push_bit 1 (word_of_int a :: 32 word))"

record Tensor =
  data :: "sample list"
  shape :: "nat list"

record ComplexTensor =
  real_t :: Tensor
  imag_t :: Tensor

section \<open>The transform engine (dsp.ts)\<close>

subsection \<open>fft and ifft\<close>

text \<open>The inner \<^verbatim>\<open>while (k <= j)\<close> of the bit-reversal loop.\<close>

partial_function (option) bitrev_carry :: "int \<Rightarrow> int \<Rightarrow> (int \<times> int) option" where
  "bitrev_carry j k = (if k \<le> j then bitrev_carry (j - k) (js_shr1 k) else Some (j, k))"

definition swap :: "sample list \<Rightarrow> int \<Rightarrow> int \<Rightarrow> sample list" where
  "swap a i j = sti (sti a i (rdi a j)) j (rdi a i)"

fun bit_reversal ::
  "int \<Rightarrow> nat list \<Rightarrow> sample list \<times> sample list \<times> int \<Rightarrow> (sample list \<times> sample list \<times> int) option"
where
  "bit_reversal n [] s = Some s"
| "bit_reversal n (i # rest) (re, im, j) =
     (let (re1, im1) = (if int i < j then (swap re (int i) j, swap im (int i) j) else (re, im))
      in Option.bind (bitrev_carry j (js_shr1 n))
           (\<lambda>(j1, k). bit_reversal n rest (re1, im1, j1 + k)))"

text \<open>
  One pass of the innermost loop: the butterfly on positions \<open>k\<close> and \<open>l\<close>, and the
  rotation of the twiddle factor \<open>(wr, wi)\<close>.
\<close>

definition butterfly ::
  "real \<Rightarrow> int \<Rightarrow> int \<Rightarrow> nat \<Rightarrow> sample list \<times> sample list \<times> real \<times> real
     \<Rightarrow> sample list \<times> sample list \<times> real \<times> real"
where
  "butterfly angle i halfLen j = (\<lambda>(re, im, wr, wi).
     let k = i + int j;
         l = k + halfLen;
         tr = Fin wr * rdi re l - Fin wi * rdi im l;
         ti = Fin wr * rdi im l + Fin wi * rdi re l;
         re1 = sti re l (rdi re k - tr);
         im1 = sti im l (rdi im k - ti);
         re2 = sti re1 k (rdi re1 k + tr);
         im2 = sti im1 k (rdi im1 k + ti);
         wtemp = wr
     in (re2, im2, wtemp * cos angle - wi * sin angle, wtemp * sin angle + wi * cos angle))"

definition fft_block :: "int \<Rightarrow> int \<Rightarrow> sample list \<times> sample list \<Rightarrow> sample list \<times> sample list" where
  "fft_block len i = (\<lambda>(re, im).
     let halfLen = js_shr1 len;
         angle = (- 2 * pi) / real_of_int len;
         (re1, im1, wr, wi) = fold (butterfly angle i halfLen) [0..<nat halfLen] (re, im, 1, 0)
     in (re1, im1))"

text \<open>\<^verbatim>\<open>for (let i = 0; i < n; i += len)\<close>, from the current \<open>i\<close>.\<close>

partial_function (option) fft_blocks ::
  "int \<Rightarrow> int \<Rightarrow> int \<Rightarrow> sample list \<times> sample list \<Rightarrow> (sample list \<times> sample list) option"
where
  "fft_blocks n len i s = (if i < n then fft_blocks n len (i + len) (fft_block len i s) else Some s)"

text \<open>\<^verbatim>\<open>for (let len = 2; len <= n; len <<= 1)\<close>, from the current \<open>len\<close>.\<close>

partial_function (option) fft_stages ::
  "int \<Rightarrow> int \<Rightarrow> sample list \<times> sample list \<Rightarrow> (sample list \<times> sample list) option"
where
  "fft_stages n len s =
     (if len \<le> n then Option.bind (fft_blocks n len 0 s) (\<lambda>s1. fft_stages n (js_shl1 len) s1)
      else Some s)"

definition fft :: "sample list \<Rightarrow> sample list option \<Rightarrow> (sample list \<times> sample list) res" where
  "fft realInput imagInput =
     (let n = int (length realInput) in
      if js_and n (n - 1) \<noteq> 0 then Some (Inl FftSizeNotPowerOfTwo)
      else
        let re = realInput;
            im = (case imagInput of Some a \<Rightarrow> a | None \<Rightarrow> zeros (length realInput))
        in Option.bind (bit_reversal n [0..<nat (n - 1)] (re, im, 0))
             (\<lambda>(re1, im1, j). Option.bind (fft_stages n 2 (re1, im1)) (\<lambda>s. Some (Inr s))))"

definition ifft :: "sample list \<Rightarrow> sample list \<Rightarrow> (sample list \<times> sample list) res" where
  "ifft realInput imagInput =
     (let n = length realInput;
          imagConj = fold (\<lambda>i a. st a i (- rd imagInput i)) [0..<n] (zeros n)
      in bind_res (fft realInput (Some imagConj))
           (\<lambda>(re, im).
              Some (Inr (fold (\<lambda>i (re1, im1).
                                 (st re1 i (rd re1 i / Fin (real n)),
                                  st im1 i (- rd im1 i / Fin (real n))))
                           [0..<n] (re, im)))))"

definition hannWindow :: "nat \<Rightarrow> sample list" where
  "hannWindow n =
     fold (\<lambda>i w. st w i (Fin (0.5 * (1 - cos ((2 * pi * real i) / real n))))) [0..<n] (zeros n)"

subsection \<open>Padding\<close>

definition padReflect :: "sample list \<Rightarrow> int \<Rightarrow> int \<Rightarrow> error + sample list" where
  "padReflect arr padLeft padRight =
     (let len = length arr;
          newLength = int len + padLeft + padRight
      in bind_err (alloc newLength) (\<lambda>result0.
           let result1 = fold (\<lambda>i r. sti r (padLeft + int i) (rd arr i)) [0..<len] result0;
               result2 = fold (\<lambda>i r. sti r (int i) (rdi r (padLeft - int i)))
                           [0..<nat padLeft] result1;
               result3 = fold (\<lambda>i r. sti r (padLeft + int len + int i)
                                          (rdi r (padLeft + int len - 2 - int i)))
                           [0..<nat padRight] result2
           in Inr result3))"


fun fold_err :: "('a \<Rightarrow> 's \<Rightarrow> error + 's) \<Rightarrow> 'a list \<Rightarrow> 's \<Rightarrow> error + 's" where
  "fold_err f [] s = Inr s"
| "fold_err f (x # xs) s = bind_err (f x s) (fold_err f xs)"

datatype pad_mode = Constant | Reflect

text \<open>\<^verbatim>\<open>shape[shape.length - 1] = v\<close> on a copy of a shape that is not empty.\<close>

definition set_last :: "nat list \<Rightarrow> nat \<Rightarrow> nat list" where
  "set_last sh v = sh[length sh - 1 := v]"

text \<open>
  The first pass of \<open>pad1d\<close> in reflect mode on an input no longer than the pad: the
  rows are extended with zeros. The new row length is at least 1 here, so
  \<^verbatim>\<open>totalSize / newLength\<close> is the number of rows.
\<close>

definition zero_extend :: "sample list \<Rightarrow> nat list \<Rightarrow> nat \<Rightarrow> nat \<Rightarrow> nat \<Rightarrow> sample list \<times> nat list" where
  "zero_extend xData xShape len extraPadLeft extraPadRight =
     (let shape1 = set_last xShape (len + extraPadLeft + extraPadRight);
          totalSize = prod_list shape1;
          outerSize = totalSize div last shape1;
          newLength = last shape1;
          tempData = fold (\<lambda>(i, j) t. st t (i * newLength + extraPadLeft + j) (rd xData (i * len + j)))
                       (List.product [0..<outerSize] [0..<len]) (zeros totalSize)
      in (tempData, shape1))"

text \<open>
  \<open>pad1d\<close>. Where the output rows are empty, \<^verbatim>\<open>totalSize / outputLength\<close> is
  \<^verbatim>\<open>0 / 0\<close>, the row loop does not run, and \<open>div\<close> gives the same count 0.
\<close>

definition pad1d :: "Tensor \<Rightarrow> nat \<times> nat \<Rightarrow> pad_mode \<Rightarrow> error + Tensor" where
  "pad1d x paddings mode =
     (if shape x = [] then Inl NotModelled
      else
        let len = last (shape x);
            (paddingLeft, paddingRight) = paddings;
            maxPad = max paddingLeft paddingRight;
            extraPad = maxPad - len + 1;
            extraPadRight = min paddingRight extraPad;
            extraPadLeft = extraPad - extraPadRight;
            ((xData, xShape), actualPaddingLeft, actualPaddingRight) =
              (if mode = Reflect \<and> len \<le> maxPad
               then (zero_extend (data x) (shape x) len extraPadLeft extraPadRight,
                     int paddingLeft - int extraPadLeft, int paddingRight - int extraPadRight)
               else ((data x, shape x), int paddingLeft, int paddingRight));
            currentLength = last xShape;
            shape2 = set_last xShape (nat (int currentLength + actualPaddingLeft + actualPaddingRight));
            totalSize = prod_list shape2;
            outerSize = totalSize div last shape2;
            outputLength = last shape2
        in bind_err
             (fold_err
                (\<lambda>i out.
                   let srcOffset = i * currentLength;
                       dstOffset = i * outputLength
                   in case mode of
                        Constant \<Rightarrow>
                          Inr (fold (\<lambda>j o1. sti o1 (int dstOffset + actualPaddingLeft + int j)
                                                  (rd xData (srcOffset + j)))
                                 [0..<currentLength] out)
                      | Reflect \<Rightarrow>
                          bind_err
                            (padReflect (take currentLength (drop srcOffset xData))
                               actualPaddingLeft actualPaddingRight)
                            (\<lambda>padded.
                               Inr (fold (\<lambda>j o1. st o1 (dstOffset + j) (rd padded j))
                                      [0..<outputLength] out)))
                [0..<outerSize] (zeros totalSize))
             (\<lambda>out. Inr \<lparr>data = out, shape = shape2\<rparr>))"

subsection \<open>stft, spectro, spec\<close>

definition stft_frame ::
  "sample list \<Rightarrow> nat \<Rightarrow> nat \<Rightarrow> nat \<Rightarrow> sample list \<Rightarrow> real \<Rightarrow> nat \<Rightarrow> nat
     \<Rightarrow> nat \<times> nat \<Rightarrow> sample list \<times> sample list \<Rightarrow> (sample list \<times> sample list) res"
where
  "stft_frame inputData inputLength nFft hopLength window norm_f numFreqs numFrames =
     (\<lambda>(b, frame). \<lambda>(realOut, imagOut).
        let frameStart = frame * hopLength;
            frameData = fold (\<lambda>i fd. st fd i (rd inputData (b * inputLength + frameStart + i)
                                                * rd window i * Fin norm_f))
                          [0..<nFft] (zeros nFft)
        in bind_res (fft frameData None)
             (\<lambda>(re, im).
                Some (Inr (fold (\<lambda>freq. \<lambda>(ro, io).
                                   let outIdx = b * numFreqs * numFrames + freq * numFrames + frame
                                   in (st ro outIdx (rd re freq), st io outIdx (rd im freq)))
                             [0..<numFreqs] (realOut, imagOut)))))"

text \<open>
  \<open>stft\<close>. The shape of \<open>x\<close> is read as \<^verbatim>\<open>[batch, length]\<close>. A hop of 0 makes the frame
  count infinite or \<open>NaN\<close>, and a negative frame count with an empty batch gives a
  shape with a negative entry: both are outside the embedding.
\<close>

definition stft ::
  "Tensor \<Rightarrow> nat \<Rightarrow> nat \<Rightarrow> sample list \<Rightarrow> bool \<Rightarrow> bool \<Rightarrow> pad_mode \<Rightarrow> ComplexTensor res"
where
  "stft x nFft hopLength window normalized center padMode =
     (case shape x of
        batch # len # _ \<Rightarrow>
          if hopLength = 0 then Some (Inl NotModelled)
          else
            bind_res
              (if center
               then (let pad = nFft div 2
                     in bind_res (Some (pad1d x (pad, pad) padMode))
                          (\<lambda>padded. Some (Inr (data padded, last (shape padded)))))
               else Some (Inr (data x, len)))
              (\<lambda>(inputData, inputLength).
                 let numFrames = (int inputLength - int nFft) div int hopLength + 1;
                     numFreqs = nFft div 2 + 1
                 in if numFrames < 0 \<and> batch = 0 then Some (Inl NotModelled)
                    else
                      bind_res (Some (alloc (int batch * int numFreqs * numFrames))) (\<lambda>realOut0.
                      bind_res (Some (alloc (int batch * int numFreqs * numFrames))) (\<lambda>imagOut0.
                        let norm_f = (if normalized then 1 / sqrt (real nFft) else 1)
                        in bind_res
                             (foldM (stft_frame inputData inputLength nFft hopLength window norm_f
                                       numFreqs (nat numFrames))
                                (List.product [0..<batch] [0..<nat numFrames]) (realOut0, imagOut0))
                             (\<lambda>(realOut, imagOut).
                                Some (Inr \<lparr>real_t = \<lparr>data = realOut,
                                                       shape = [batch, numFreqs, nat numFrames]\<rparr>,
                                           imag_t = \<lparr>data = imagOut,
                                                       shape = [batch, numFreqs, nat numFrames]\<rparr>\<rparr>)))))
      | _ \<Rightarrow> Some (Inl NotModelled))"

text \<open>
  \<open>spectro\<close>. \<^verbatim>\<open>x.data.length / length\<close> is the batch size; where it is no natural
  number the input is outside the embedding.
\<close>

definition spectro :: "Tensor \<Rightarrow> nat \<Rightarrow> nat option \<Rightarrow> ComplexTensor res" where
  "spectro x nFft hopLength0 =
     (let hopLength = (case hopLength0 of None \<Rightarrow> nFft div 4 | Some h \<Rightarrow> h);
          originalShape = shape x
      in if originalShape = [] then Some (Inl NotModelled)
         else
           let len = last originalShape
           in if len = 0 \<or> length (data x) mod len \<noteq> 0 then Some (Inl NotModelled)
              else
                let otherSize = length (data x) div len;
                    reshapedX = \<lparr>data = data x, shape = [otherSize, len]\<rparr>;
                    window = hannWindow nFft
                in bind_res (stft reshapedX nFft hopLength window True True Reflect)
                     (\<lambda>result.
                        case shape (real_t result) of
                          [batch, freqs, frames] \<Rightarrow>
                            let outputShape = butlast originalShape @ [freqs, frames]
                            in Some (Inr \<lparr>real_t = \<lparr>data = data (real_t result), shape = outputShape\<rparr>,
                                          imag_t = \<lparr>data = data (imag_t result), shape = outputShape\<rparr>\<rparr>)
                        | _ \<Rightarrow> Some (Inl NotModelled)))"

text \<open>
  \<open>spec\<close>. The shape that \<open>spectro\<close> returns has at least the two dimensions
  \<^verbatim>\<open>freqs\<close> and \<^verbatim>\<open>frames\<close>, and \<^verbatim>\<open>freqs\<close> is at least 1.
\<close>

definition spec :: "Tensor \<Rightarrow> ComplexTensor res" where
  "spec x =
     (if shape x = [] then Some (Inl NotModelled)
      else
        let hl = 1024;
            lastDimLength = last (shape x);
            le = nat \<lceil>real lastDimLength / real hl\<rceil>;
            pad = hl div 2 * 3;
            paddingRight = pad + le * hl - lastDimLength
        in bind_res (Some (pad1d x (pad, paddingRight) Reflect)) (\<lambda>paddedX.
           bind_res (spectro paddedX 4096 (Some hl)) (\<lambda>z.
             let zShape = shape (real_t z);
                 oldFreqs = zShape ! (length zShape - 2);
                 newFreqs = oldFreqs - 1;
                 frames = zShape ! (length zShape - 1);
                 outerSize = length (data (real_t z)) div (oldFreqs * frames);
                 newShape = zShape[length zShape - 2 := newFreqs];
                 newSize = prod_list newShape;
                 (newReal, newImag) =
                   fold (\<lambda>(i, freq, frame). \<lambda>(nr, ni).
                           let oldIdx = i * oldFreqs * frames + freq * frames + frame;
                               newIdx = i * newFreqs * frames + freq * frames + frame
                           in (st nr newIdx (rd (data (real_t z)) oldIdx),
                               st ni newIdx (rd (data (imag_t z)) oldIdx)))
                     (List.product [0..<outerSize] (List.product [0..<newFreqs] [0..<frames]))
                     (zeros newSize, zeros newSize);
                 slicedShape = newShape[length newShape - 1 := le];
                 slicedSize = prod_list slicedShape;
                 (slicedReal, slicedImag) =
                   fold (\<lambda>(i, freq, frame). \<lambda>(sr, si).
                           let srcIdx = i * newFreqs * frames + freq * frames + (2 + frame);
                               dstIdx = i * newFreqs * le + freq * le + frame
                           in (st sr dstIdx (rd newReal srcIdx), st si dstIdx (rd newImag srcIdx)))
                     (List.product [0..<outerSize] (List.product [0..<newFreqs] [0..<le]))
                     (zeros slicedSize, zeros slicedSize)
             in Some (Inr \<lparr>real_t = \<lparr>data = slicedReal, shape = slicedShape\<rparr>,
                           imag_t = \<lparr>data = slicedImag, shape = slicedShape\<rparr>\<rparr>))))"

text \<open>\<open>magnitude\<close>. The shape of \<open>z\<close> is read as \<^verbatim>\<open>[B, C, Fr, T]\<close>.\<close>

definition magnitude :: "ComplexTensor \<Rightarrow> error + Tensor" where
  "magnitude z =
     (case shape (real_t z) of
        B # C # Fr # T # _ \<Rightarrow>
          let outShape = [B, C * 2, Fr, T];
              outSize = B * C * 2 * Fr * T;
              out = fold (\<lambda>(b, c, fr, t) out1.
                            let srcIdx = b * C * Fr * T + c * Fr * T + fr * T + t;
                                dstIdxReal = b * (C * 2) * Fr * T + c * 2 * Fr * T + fr * T + t;
                                out2 = st out1 dstIdxReal (rd (data (real_t z)) srcIdx);
                                dstIdxImag = b * (C * 2) * Fr * T + (c * 2 + 1) * Fr * T + fr * T + t
                            in st out2 dstIdxImag (rd (data (imag_t z)) srcIdx))
                      (List.product [0..<B] (List.product [0..<C] (List.product [0..<Fr] [0..<T])))
                      (zeros outSize)
          in Inr \<lparr>data = out, shape = outShape\<rparr>
      | _ \<Rightarrow> Inl NotModelled)"


subsection \<open>istft, ispectro, ispec\<close>

text \<open>
  One frame of \<open>istft\<close>: the two-sided spectrum from the one-sided one, the inverse
  transform, and the overlap-add into \<open>output\<close> and \<open>windowSum\<close>. After the check of
  \<open>istft\<close>, \<open>nFft\<close> is even, so \<^verbatim>\<open>nFft / 2\<close> is \<open>nFft div 2\<close>.
\<close>

definition istft_frame ::
  "ComplexTensor \<Rightarrow> nat \<Rightarrow> nat \<Rightarrow> nat \<Rightarrow> nat \<Rightarrow> sample list \<Rightarrow> real \<Rightarrow> bool \<Rightarrow> int
     \<Rightarrow> nat \<times> nat \<Rightarrow> sample list \<times> sample list \<Rightarrow> (sample list \<times> sample list) res"
where
  "istft_frame z freqs numFrames nFft hopLength window norm_f center outputLength =
     (\<lambda>(b, frame). \<lambda>(output, windowSum).
        let (fullReal1, fullImag1) =
              fold (\<lambda>freq. \<lambda>(fr, fi).
                      let idx = b * freqs * numFrames + freq * numFrames + frame
                      in (st fr freq (rd (data (real_t z)) idx), st fi freq (rd (data (imag_t z)) idx)))
                [0..<freqs] (zeros nFft, zeros nFft);
            (fullReal, fullImag) =
              fold (\<lambda>freq. \<lambda>(fr, fi).
                      let mirrorFreq = nFft - freq
                      in (st fr freq (rd fr mirrorFreq), st fi freq (- rd fi mirrorFreq)))
                [freqs..<nFft] (fullReal1, fullImag1)
        in bind_res (ifft fullReal fullImag)
             (\<lambda>(frameReal, frameImag).
                let frameStart = int frame * int hopLength - (if center then int (nFft div 2) else 0)
                in Some (Inr (fold (\<lambda>i. \<lambda>(out, ws).
                                      let outputIdx = frameStart + int i
                                      in if 0 \<le> outputIdx \<and> outputIdx < outputLength
                                         then
                                           let globalIdx = int b * outputLength + outputIdx
                                           in (sti out globalIdx
                                                 (rdi out globalIdx + rd frameReal i * rd window i * Fin norm_f),
                                               sti ws globalIdx
                                                 (rdi ws globalIdx + rd window i * rd window i))
                                         else (out, ws))
                                [0..<nFft] (output, windowSum)))))"

text \<open>
  \<open>istft\<close>. The shape of \<open>z\<close> is read as \<^verbatim>\<open>[batch, freqs, numFrames]\<close>; without a
  second entry \<^verbatim>\<open>freqs\<close> is \<^verbatim>\<open>undefined\<close> and the check throws. Without a third
  entry, and for a negative output length with an empty batch, the input is outside the
  embedding.
\<close>

definition istft ::
  "ComplexTensor \<Rightarrow> nat \<Rightarrow> nat \<Rightarrow> sample list \<Rightarrow> bool \<Rightarrow> nat option \<Rightarrow> bool \<Rightarrow> Tensor res"
where
  "istft z nFft hopLength window normalized length0 center =
     (case shape (real_t z) of
        batch # freqs # rest \<Rightarrow>
          if 2 * int freqs - 2 \<noteq> int nFft then Some (Inl IstftFreqsMismatch)
          else
            (case rest of
               [] \<Rightarrow> Some (Inl NotModelled)
             | numFrames # _ \<Rightarrow>
                 let outputLength0 = (case length0 of
                                        Some l \<Rightarrow> int l
                                      | None \<Rightarrow> int nFft + (int numFrames - 1) * int hopLength);
                     outputLength = (if center then outputLength0 - int nFft else outputLength0)
                 in if outputLength < 0 \<and> batch = 0 then Some (Inl NotModelled)
                    else
                      bind_res (Some (alloc (int batch * outputLength))) (\<lambda>output0.
                      bind_res (Some (alloc (int batch * outputLength))) (\<lambda>windowSum0.
                        let norm_f = (if normalized then sqrt (real nFft) else 1)
                        in bind_res
                             (foldM (istft_frame z freqs numFrames nFft hopLength window norm_f
                                       center outputLength)
                                (List.product [0..<batch] [0..<numFrames]) (output0, windowSum0))
                             (\<lambda>(output1, windowSum).
                                let output =
                                      fold (\<lambda>i out.
                                              if sample_gt (rd windowSum i) (Fin (1 / 10 ^ 8))
                                              then st out i (rd out i / rd windowSum i)
                                              else out)
                                        [0..<length output1] output1
                                in Some (Inr \<lparr>data = output, shape = [batch, nat outputLength]\<rparr>)))))
      | _ \<Rightarrow> Some (Inl IstftFreqsMismatch))"

text \<open>
  \<open>ispectro\<close>. With \<^verbatim>\<open>freqs = 0\<close> the window size \<^verbatim>\<open>2 * freqs - 2\<close> is negative and
  \<open>hannWindow\<close> cannot allocate.
\<close>

definition ispectro :: "ComplexTensor \<Rightarrow> nat option \<Rightarrow> nat option \<Rightarrow> Tensor res" where
  "ispectro z hopLength0 length0 =
     (let originalShape = shape (real_t z)
      in if length originalShape < 2 then Some (Inl NotModelled)
         else
           let freqs = originalShape ! (length originalShape - 2);
               frames = originalShape ! (length originalShape - 1)
           in if freqs = 0 then Some (Inl InvalidTypedArrayLength)
              else
                let nFft = 2 * freqs - 2;
                    hopLength = (case hopLength0 of None \<Rightarrow> nFft div 4 | Some h \<Rightarrow> h)
                in if frames = 0 \<or> length (data (real_t z)) mod (freqs * frames) \<noteq> 0
                   then Some (Inl NotModelled)
                   else
                     let otherSize = length (data (real_t z)) div (freqs * frames);
                         reshapedZ = \<lparr>real_t = \<lparr>data = data (real_t z), shape = [otherSize, freqs, frames]\<rparr>,
                                      imag_t = \<lparr>data = data (imag_t z), shape = [otherSize, freqs, frames]\<rparr>\<rparr>;
                         window = hannWindow nFft
                     in bind_res (istft reshapedZ nFft hopLength window True length0 True)
                          (\<lambda>result.
                             let outputLength = shape result ! 1;
                                 outputShape = take (length originalShape - 2) originalShape @ [outputLength]
                             in Some (Inr \<lparr>data = data result, shape = outputShape\<rparr>)))"

definition padComplex :: "ComplexTensor \<Rightarrow> nat \<times> nat \<Rightarrow> nat \<times> nat \<Rightarrow> error + ComplexTensor" where
  "padComplex z padFreq padTime =
     (let sh = shape (real_t z);
          ndim = length sh
      in if ndim < 2 then Inl NotModelled
         else
           let (padFreqLeft, padFreqRight) = padFreq;
               (padTimeLeft, padTimeRight) = padTime;
               oldFreqs = sh ! (ndim - 2);
               oldFrames = sh ! (ndim - 1);
               newFreqs = oldFreqs + padFreqLeft + padFreqRight;
               newFrames = oldFrames + padTimeLeft + padTimeRight;
               newShape = (sh[ndim - 2 := newFreqs])[ndim - 1 := newFrames];
               totalSize = prod_list newShape;
               outerSize = totalSize div (newFreqs * newFrames);
               (newReal, newImag) =
                 fold (\<lambda>(i, freq, frame). \<lambda>(nr, ni).
                         let oldIdx = i * oldFreqs * oldFrames + freq * oldFrames + frame;
                             newIdx = i * newFreqs * newFrames + (freq + padFreqLeft) * newFrames
                                      + (frame + padTimeLeft)
                         in (st nr newIdx (rd (data (real_t z)) oldIdx),
                             st ni newIdx (rd (data (imag_t z)) oldIdx)))
                   (List.product [0..<outerSize] (List.product [0..<oldFreqs] [0..<oldFrames]))
                   (zeros totalSize, zeros totalSize)
           in Inr \<lparr>real_t = \<lparr>data = newReal, shape = newShape\<rparr>,
                   imag_t = \<lparr>data = newImag, shape = newShape\<rparr>\<rparr>)"

definition ispec :: "ComplexTensor \<Rightarrow> nat \<Rightarrow> Tensor res" where
  "ispec z len =
     (let hl = 1024
      in bind_res (Some (padComplex z (0, 1) (0, 0))) (\<lambda>paddedZ1.
         bind_res (Some (padComplex paddedZ1 (0, 0) (2, 2))) (\<lambda>paddedZ.
           let pad = hl div 2 * 3;
               le = hl * nat \<lceil>real len / real hl\<rceil> + 2 * pad
           in bind_res (ispectro paddedZ (Some hl) (Some le)) (\<lambda>x.
                let sh = shape x;
                    lastDim = length sh - 1;
                    totalLength = sh ! lastDim;
                    newShape = sh[lastDim := len];
                    totalSize = prod_list newShape;
                    outerSize = totalSize div len;
                    newData = fold (\<lambda>(i, j) nd. st nd (i * len + j) (rd (data x) (i * totalLength + pad + j)))
                                (List.product [0..<outerSize] [0..<len]) (zeros totalSize)
                in Some (Inr \<lparr>data = newData, shape = newShape\<rparr>)))))"

section \<open>Chunked inference (apply.ts)\<close>

subsection \<open>TensorChunk\<close>

record TensorChunk =
  tensor :: Tensor
  offset :: int
  length_c :: int

text \<open>The constructor; \<open>None\<close> is the default \<^verbatim>\<open>length = null\<close>.\<close>

definition TensorChunk_new :: "Tensor \<Rightarrow> int \<Rightarrow> int option \<Rightarrow> error + TensorChunk" where
  "TensorChunk_new t off length0 =
     (if shape t = [] then Inl NotModelled
      else
        let totalLength = int (last (shape t))
        in if off < 0 then Inl OffsetNegative
           else if off \<ge> totalLength then Inl OffsetNotBelowTotalLength
           else
             let len = (case length0 of
                          None \<Rightarrow> totalLength - off
                        | Some l \<Rightarrow> min (totalLength - off) l)
             in Inr \<lparr>tensor = t, offset = off, length_c = len\<rparr>)"

text \<open>
  \<open>padded\<close>. A negative target length (possible only for a chunk of negative length)
  makes the buffer size negative, which \<^verbatim>\<open>new Float32Array\<close> refuses, unless another
  dimension is 0.
\<close>

definition padded :: "TensorChunk \<Rightarrow> int \<Rightarrow> error + Tensor" where
  "padded c targetLength =
     (if shape (tensor c) = [] then Inl NotModelled
      else
        let delta = targetLength - length_c c;
            totalLength = int (last (shape (tensor c)))
        in if delta < 0 then Inl TargetLengthBelowLength
           else
             let start = offset c - delta div 2;
                 end1 = start + targetLength;
                 correctStart = max 0 start;
                 correctEnd = min totalLength end1;
                 padLeft = correctStart - start;
                 padRight = end1 - correctEnd
             in if targetLength < 0
                then (if prod_list (butlast (shape (tensor c))) = 0 then Inl NotModelled
                      else Inl InvalidTypedArrayLength)
                else
                  let shape1 = set_last (shape (tensor c)) (nat targetLength);
                      totalSize = prod_list shape1;
                      sliceLength = correctEnd - correctStart;
                      innerSize = nat targetLength;
                      outerSize = totalSize div innerSize;
                      out = fold (\<lambda>(i, j) o1.
                                    let srcOffset = int i * totalLength + correctStart;
                                        dstOffset = int i * int innerSize + padLeft
                                    in sti o1 (dstOffset + int j) (rdi (data (tensor c)) (srcOffset + int j)))
                              (List.product [0..<outerSize] [0..<nat sliceLength]) (zeros totalSize)
                  in if length out \<noteq> totalSize then Inl OutputSizeMismatch
                     else Inr \<lparr>data = out, shape = shape1\<rparr>)"

subsection \<open>The steps of one inference\<close>

definition padToTrainingLength :: "Tensor \<Rightarrow> int \<Rightarrow> error + Tensor" where
  "padToTrainingLength mix trainingLength =
     (if shape mix = [] then Inl NotModelled
      else
        let currentLength = last (shape mix)
        in if int currentLength \<ge> trainingLength then Inr mix
           else
             let shape1 = set_last (shape mix) (nat trainingLength);
                 totalSize = prod_list shape1;
                 outerSize = totalSize div nat trainingLength;
                 out = fold (\<lambda>(i, j) o1.
                               let srcOffset = i * currentLength;
                                   dstOffset = i * nat trainingLength
                               in st o1 (dstOffset + j) (rd (data mix) (srcOffset + j)))
                         (List.product [0..<outerSize] [0..<currentLength]) (zeros totalSize)
             in Inr \<lparr>data = out, shape = shape1\<rparr>)"

text \<open>
  \<open>mask\<close> (here \<open>mask_t\<close>) reads the shape of \<open>m\<close> as \<^verbatim>\<open>[B, S, C, Fr, T]\<close>. A dimension the shape does
  not have is \<^verbatim>\<open>undefined\<close>: the buffer size is then \<open>NaN\<close>, the buffers are empty, no
  loop body runs, and the shape returned holds the \<^verbatim>\<open>undefined\<close>. So the result is a
  tensor whose shape entries are optional. An odd \<open>C\<close> (which the source excludes by its
  comment) makes \<^verbatim>\<open>C / 2\<close> fractional and is outside the embedding.
\<close>

record UTensor =
  udata :: "sample list"
  ushape :: "nat option list"

record UComplexTensor =
  ureal_t :: UTensor
  uimag_t :: UTensor

definition dim :: "nat list \<Rightarrow> nat \<Rightarrow> nat option" where
  "dim sh i = (if i < length sh then Some (sh ! i) else None)"

definition mask_t :: "Tensor \<Rightarrow> error + UComplexTensor" where
  "mask_t m =
     (let B0 = dim (shape m) 0; S0 = dim (shape m) 1; C0 = dim (shape m) 2;
          Fr0 = dim (shape m) 3; T0 = dim (shape m) 4
      in if (case C0 of Some c \<Rightarrow> odd c | None \<Rightarrow> False) then Inl NotModelled
         else
           let C_half0 = map_option (\<lambda>c. c div 2) C0;
               outShape = [B0, S0, C_half0, Fr0, T0]
           in case (B0, S0, C0, Fr0, T0) of
                (Some B, Some S, Some C, Some Fr, Some T) \<Rightarrow>
                  let C_half = C div 2;
                      outSize = B * S * C_half * Fr * T;
                      (realOut, imagOut) =
                        fold (\<lambda>(b, s, c, fr, t). \<lambda>(ro, io).
                                let realChannel = c * 2;
                                    imagChannel = c * 2 + 1;
                                    realInIdx = b * S * C * Fr * T + s * C * Fr * T
                                                + realChannel * Fr * T + fr * T + t;
                                    imagInIdx = b * S * C * Fr * T + s * C * Fr * T
                                                + imagChannel * Fr * T + fr * T + t;
                                    outIdx = b * S * C_half * Fr * T + s * C_half * Fr * T
                                             + c * Fr * T + fr * T + t
                                in (st ro outIdx (rd (data m) realInIdx),
                                    st io outIdx (rd (data m) imagInIdx)))
                          (List.product [0..<B] (List.product [0..<S] (List.product [0..<C_half]
                             (List.product [0..<Fr] [0..<T]))))
                          (zeros outSize, zeros outSize)
                  in Inr \<lparr>ureal_t = \<lparr>udata = realOut, ushape = outShape\<rparr>,
                          uimag_t = \<lparr>udata = imagOut, ushape = outShape\<rparr>\<rparr>
              | _ \<Rightarrow> Inr \<lparr>ureal_t = \<lparr>udata = [], ushape = outShape\<rparr>,
                          uimag_t = \<lparr>udata = [], ushape = outShape\<rparr>\<rparr>)"

text \<open>
  The later stages are followed only for a shape without \<^verbatim>\<open>undefined\<close>.
\<close>

definition defined_tensor :: "UTensor \<Rightarrow> error + Tensor" where
  "defined_tensor u =
     (if list_all (\<lambda>d. d \<noteq> None) (ushape u) then Inr \<lparr>data = udata u, shape = map the (ushape u)\<rparr>
      else Inl NotModelled)"

definition defined_complex :: "UComplexTensor \<Rightarrow> error + ComplexTensor" where
  "defined_complex u =
     bind_err (defined_tensor (ureal_t u)) (\<lambda>r.
     bind_err (defined_tensor (uimag_t u)) (\<lambda>i. Inr \<lparr>real_t = r, imag_t = i\<rparr>))"

definition addTensors :: "Tensor \<Rightarrow> Tensor \<Rightarrow> error + Tensor" where
  "addTensors a b =
     (if shape a \<noteq> shape b then Inl ShapesMustMatch
      else
        let out = fold (\<lambda>i o1. st o1 i (rd (data a) i + rd (data b) i))
                    [0..<length (data a)] (zeros (length (data a)))
        in Inr \<lparr>data = out, shape = shape a\<rparr>)"

definition cropToValidLength :: "Tensor \<Rightarrow> int \<Rightarrow> error + Tensor" where
  "cropToValidLength x validLength =
     (if shape x = [] then Inl NotModelled
      else
        let currentLength = last (shape x)
        in if validLength \<ge> int currentLength then Inr x
           else if validLength < 0
           then (if prod_list (butlast (shape x)) = 0 then Inl NotModelled
                 else Inl InvalidTypedArrayLength)
           else
             let newShape = set_last (shape x) (nat validLength);
                 totalSize = prod_list newShape;
                 outerSize = totalSize div nat validLength;
                 out = fold (\<lambda>(i, j) o1.
                               let srcIdx = i * currentLength + j;
                                   dstIdx = i * nat validLength + j
                               in st o1 dstIdx (rd (data x) srcIdx))
                         (List.product [0..<outerSize] [0..<nat validLength]) (zeros totalSize)
             in Inr \<lparr>data = out, shape = newShape\<rparr>)"

definition centerTrim :: "Tensor \<Rightarrow> int \<Rightarrow> error + Tensor" where
  "centerTrim t reference =
     (if shape t = [] then Inl NotModelled
      else
        let tensorLength = last (shape t);
            refSize = reference;
            delta = int tensorLength - refSize
        in if delta < 0 then Inl TensorSmallerThanReference
           else if delta = 0 then Inr t
           else
             let start = delta div 2;
                 end1 = int tensorLength - (delta - delta div 2);
                 newLength = end1 - start
             in if newLength < 0
                then (if prod_list (butlast (shape t)) = 0 then Inl NotModelled
                      else Inl InvalidTypedArrayLength)
                else
                  let shape1 = set_last (shape t) (nat newLength);
                      totalSize = prod_list shape1;
                      outerSize = totalSize div nat newLength;
                      out = fold (\<lambda>(i, j) o1.
                                    let srcIdx = i * tensorLength + nat start + j;
                                        dstIdx = i * nat newLength + j
                                    in st o1 dstIdx (rd (data t) srcIdx))
                              (List.product [0..<outerSize] [0..<nat newLength]) (zeros totalSize)
                  in Inr \<lparr>data = out, shape = shape1\<rparr>)"

subsection \<open>The network (onnx-htdemucs.ts)\<close>

text \<open>
  The network is a record of the constants of the class and of \<open>forward\<close>, the call
  into the inference session, which is outside the program: any function from the two
  input tensors to a rejection or the two output tensors.
\<close>

record ONNXHTDemucs =
  sources :: "string list"
  audioChannels :: nat
  samplerate :: nat
  segment :: real
  forward :: "Tensor \<Rightarrow> Tensor \<Rightarrow> error + Tensor \<times> Tensor"

text \<open>The constants of the class in the source.\<close>

definition htdemucs :: "(Tensor \<Rightarrow> Tensor \<Rightarrow> error + Tensor \<times> Tensor) \<Rightarrow> ONNXHTDemucs" where
  "htdemucs f = \<lparr>sources = [''drums'', ''bass'', ''other'', ''vocals''], audioChannels = 2,
                  samplerate = 44100, segment = 78 / 10, forward = f\<rparr>"

definition validLength :: "ONNXHTDemucs \<Rightarrow> int \<Rightarrow> error + int" where
  "validLength model len =
     (let trainingLength = \<lfloor>segment model * real (samplerate model)\<rfloor>
      in if trainingLength < len then Inl LongerThanTrainingLength else Inr trainingLength)"

subsection \<open>applyInference and applySplits\<close>

definition applyInference :: "ONNXHTDemucs \<Rightarrow> TensorChunk \<Rightarrow> Tensor res" where
  "applyInference model mix =
     (let len = length_c mix
      in bind_res (Some (validLength model len)) (\<lambda>validLen.
         bind_res (Some (padded mix validLen)) (\<lambda>paddedMix.
           let trainingLength = \<lfloor>segment model * real (samplerate model)\<rfloor>
           in bind_res (Some (padToTrainingLength paddedMix trainingLength)) (\<lambda>paddedPaddedMix.
              bind_res (spec paddedPaddedMix) (\<lambda>z.
              bind_res (Some (magnitude z)) (\<lambda>magspec.
              bind_res (Some (forward model paddedMix magspec)) (\<lambda>(outX, outXt).
              bind_res (Some (bind_err (mask_t outX) defined_complex)) (\<lambda>zout.
              bind_res (ispec zout (nat trainingLength)) (\<lambda>timeFromSpec.
              bind_res (Some (addTensors outXt timeFromSpec)) (\<lambda>sumBeforeCrop.
              bind_res (Some (cropToValidLength sumBeforeCrop validLen)) (\<lambda>out.
                Some (centerTrim out len))))))))))))"

text \<open>
  \<^verbatim>\<open>Math.max\<close> on samples, and the maximum of the weights by \<^verbatim>\<open>reduce\<close> from
  \<^verbatim>\<open>-Infinity\<close>, which is \<open>None\<close> here: it stays only for an empty weight vector.
\<close>

fun sample_max :: "sample \<Rightarrow> sample \<Rightarrow> sample" where
  "sample_max (Fin a) (Fin b) = Fin (max a b)"
| "sample_max _ _ = NaN"

definition triangle_weight :: "nat \<Rightarrow> sample list" where
  "triangle_weight seg =
     (let weight0 = fold (\<lambda>i w. st w i (Fin (real i + 1))) [0..<seg div 2 + 1] (zeros seg);
          weight1 = fold (\<lambda>i w. st w i (Fin (real seg - real i))) [seg div 2 + 1..<seg] weight0;
          maxWeight = fold (\<lambda>current mx. Some (case mx of None \<Rightarrow> current
                                                 | Some m \<Rightarrow> sample_max m current))
                        weight1 None
      in case maxWeight of
           None \<Rightarrow> weight1
         | Some m \<Rightarrow> fold (\<lambda>i w. st w i (rd w i / m)) [0..<seg] weight1)"

text \<open>
  The state of the chunk loop: the two accumulators, the loop variables, and the calls
  of the progress callback so far, each \<^verbatim>\<open>(step, total)\<close>. \<^verbatim>\<open>total\<close> is
  \<^verbatim>\<open>Math.ceil(length / stride)\<close>, \<open>None\<close> where the stride is 0 and the quotient is
  infinite or \<open>NaN\<close>.
\<close>

record splits_state =
  outData :: "sample list"
  sumWeight :: "sample list"
  cur_offset :: int
  chunkIndex :: nat
  progress :: "(nat \<times> int option) list"

text \<open>The body of the chunk loop after the inference: accumulate, advance, report.\<close>

definition splits_step ::
  "nat \<Rightarrow> nat \<Rightarrow> nat \<Rightarrow> nat \<Rightarrow> int \<Rightarrow> sample list \<Rightarrow> int option \<Rightarrow> Tensor \<Rightarrow> splits_state \<Rightarrow> splits_state"
where
  "splits_step batch nsources channels len stride weight total_n chunkOut s =
     (let chunkLength = last (shape chunkOut);
          off = cur_offset s;
          outData1 =
            fold (\<lambda>(b, src, c, t) od.
                    let outIdx = int (b * nsources * channels * len + src * channels * len + c * len)
                                 + off + int t;
                        chunkIdx = b * nsources * channels * chunkLength + src * channels * chunkLength
                                   + c * chunkLength + t
                    in sti od outIdx (rdi od outIdx + rd weight t * rd (data chunkOut) chunkIdx))
              (List.product [0..<batch] (List.product [0..<nsources] (List.product [0..<channels]
                 [0..<chunkLength])))
              (outData s);
          sumWeight1 = fold (\<lambda>t sw. sti sw (off + int t) (rdi sw (off + int t) + rd weight t))
                         [0..<chunkLength] (sumWeight s)
      in \<lparr>outData = outData1, sumWeight = sumWeight1, cur_offset = off + stride,
          chunkIndex = chunkIndex s + 1,
          progress = progress s @ [(chunkIndex s + 1, total_n)]\<rparr>)"

text \<open>
  \<^verbatim>\<open>while (offset < length)\<close>. The loop returns the state it stopped in, with the error
  when a chunk failed.
\<close>

partial_function (option) applySplits_loop ::
  "ONNXHTDemucs \<Rightarrow> Tensor \<Rightarrow> nat \<Rightarrow> nat \<Rightarrow> nat \<Rightarrow> nat \<Rightarrow> int \<Rightarrow> int \<Rightarrow> sample list \<Rightarrow> int option
     \<Rightarrow> splits_state \<Rightarrow> (error option \<times> splits_state) option"
where
  "applySplits_loop model mix batch nsources channels len seg stride weight total_n s =
     (if cur_offset s < int len
      then (case TensorChunk_new mix (cur_offset s) (Some seg) of
              Inl e \<Rightarrow> Some (Some e, s)
            | Inr chunk \<Rightarrow>
                Option.bind (applyInference model chunk)
                  (\<lambda>r. case r of
                         Inl e \<Rightarrow> Some (Some e, s)
                       | Inr chunkOut \<Rightarrow>
                           if shape chunkOut = [] then Some (Some NotModelled, s)
                           else applySplits_loop model mix batch nsources channels len seg stride
                                  weight total_n
                                  (splits_step batch nsources channels len stride weight total_n
                                     chunkOut s)))
      else Some (None, s))"

definition applySplits ::
  "ONNXHTDemucs \<Rightarrow> Tensor \<Rightarrow> real \<Rightarrow> ((error + Tensor) \<times> (nat \<times> int option) list) option"
where
  "applySplits model mix overlap =
     (case shape mix of
        batch # channels # len # _ \<Rightarrow>
          let nsources = length (sources model);
              outData0 = zeros (batch * nsources * channels * len);
              sumWeight0 = zeros len;
              seg = \<lfloor>real (samplerate model) * segment model\<rfloor>;
              stride = \<lfloor>(1 - overlap) * real_of_int seg\<rfloor>
          in if seg < 0 then Some (Inl InvalidTypedArrayLength, [])
             else
               let weight = triangle_weight (nat seg);
                   total_n = (if stride = 0 then None
                            else Some \<lceil>real len / real_of_int stride\<rceil>);
                   s0 = \<lparr>outData = outData0, sumWeight = sumWeight0, cur_offset = 0,
                         chunkIndex = 0, progress = [(0, total_n)]\<rparr>
               in Option.bind
                    (applySplits_loop model mix batch nsources channels len seg stride weight total_n s0)
                    (\<lambda>(err, s).
                       case err of
                         Some e \<Rightarrow> Some (Inl e, progress s)
                       | None \<Rightarrow>
                           let outData1 =
                                 fold (\<lambda>i od.
                                         let timeIdx = i mod len
                                         in st od i (rd od i / rd (sumWeight s) timeIdx))
                                   [0..<length (outData s)] (outData s)
                           in Some (Inr \<lparr>data = outData1, shape = [batch, nsources, channels, len]\<rparr>,
                                    progress s))
      | _ \<Rightarrow> Some (Inl NotModelled, []))"

definition applyModel ::
  "ONNXHTDemucs \<Rightarrow> Tensor \<Rightarrow> real \<Rightarrow> ((error + Tensor) \<times> (nat \<times> int option) list) option"
where
  "applyModel model mix overlap = applySplits model mix overlap"

subsection \<open>separateTracks\<close>

record RawAudio =
  channelData :: "sample list list"
  sampleRate :: nat

text \<open>
  \<open>planarize\<close> (wav-utils.ts) returns the one channel, or the channels one after the
  other: as one view when they already lie so in one buffer, as a copy otherwise.
  Channels of different lengths make the result depend on the buffer behind the views,
  which is outside the embedding.
\<close>

definition planarize :: "sample list list \<Rightarrow> error + sample list" where
  "planarize cd =
     (case cd of
        [] \<Rightarrow> Inl CannotReadUndefined
      | c0 # _ \<Rightarrow>
          if length cd = 1 then Inr c0
          else if list_all (\<lambda>c. length c = length c0) cd then Inr (concat cd)
          else Inl NotModelled)"

definition separateTracks ::
  "ONNXHTDemucs \<Rightarrow> RawAudio \<Rightarrow> real
     \<Rightarrow> ((error + (string \<rightharpoonup> RawAudio)) \<times> (nat \<times> int option) list) option"
where
  "separateTracks model rawAudio overlap =
     (case channelData rawAudio of
        [] \<Rightarrow> Some (Inl CannotReadUndefined, [])
      | c0 # _ \<Rightarrow>
          let channels = length (channelData rawAudio);
              samples = length c0
          in case planarize (channelData rawAudio) of
               Inl e \<Rightarrow> Some (Inl e, [])
             | Inr d \<Rightarrow>
                 let mix = \<lparr>data = d, shape = [1, channels, samples]\<rparr>
                 in Option.bind (applyModel model mix overlap)
                      (\<lambda>(r, calls).
                         case r of
                           Inl e \<Rightarrow> Some (Inl e, calls)
                         | Inr result \<Rightarrow>
                             (case shape result of
                                batch # nsources # resultChannels # len # _ \<Rightarrow>
                                  Some (fold_err
                                          (\<lambda>s tracks.
                                             let sourceName = (if s < length (sources model)
                                                               then sources model ! s
                                                               else ''undefined'')
                                             in bind_err
                                                  (fold_err
                                                     (\<lambda>c cds.
                                                        let startIdx = s * channels * len + c * len
                                                        in if startIdx + len > length (data result)
                                                           then Inl InvalidTypedArrayLength
                                                           else Inr (cds @ [take len (drop startIdx (data result))]))
                                                     [0..<channels] [])
                                                  (\<lambda>cds. Inr (tracks(sourceName \<mapsto>
                                                            \<lparr>channelData = cds,
                                                             sampleRate = sampleRate rawAudio\<rparr>))))
                                          [0..<nsources] Map.empty,
                                        calls)
                              | _ \<Rightarrow> Some (Inl NotModelled, calls))))"

section \<open>Properties\<close>

text \<open>
  C1. The claim: for \<open>p \<le> length x - 1\<close> and \<open>0 \<le> k \<le> p - 1\<close> the padded row is
  symmetric around the first original sample, \<open>padReflect x p p\<close> at \<open>p - 1 - k\<close> equals
  it at \<open>p + 1 + k\<close>. The right-hand loop mirrors around the last sample with indices
  into the result; the left-hand loop uses the index \<open>padLeft - i\<close> into the result
  too, where the sample to copy sits at \<open>2 * padLeft - i\<close>. On the three samples
  1, 2, 3 with \<open>p = 1\<close> the code returns 1, 1, 2, 3, 2: the first sample is repeated at
  the left edge, and position 0 differs from position 2.
\<close>

theorem padReflect_left_edge_repeated:
  "padReflect [Fin 1, Fin 2, Fin 3] 1 1 = Inr [Fin 1, Fin 1, Fin 2, Fin 3, Fin 2]
   \<and> rd [Fin 1, Fin 1, Fin 2, Fin 3, Fin 2] (1 - 1 - 0)
       \<noteq> rd [Fin 1, Fin 1, Fin 2, Fin 3, Fin 2] (1 + 1 + 0)"
  by (simp add: padReflect_def alloc_def bind_err_def zeros_def rd_def st_def rdi_def sti_def
      zero_sample_def upt_conv_Cons eval_nat_numeral)

subsection \<open>Buffers keep their length\<close>

lemma length_st [simp]: "length (st xs i v) = length xs" by (simp add: st_def)
lemma length_sti [simp]: "length (sti xs i v) = length xs" by (simp add: sti_def)
lemma length_zeros [simp]: "length (zeros n) = n" by (simp add: zeros_def)

lemma length_fold_preserve:
  "(\<And>x a. length (f x a) = length a) \<Longrightarrow> length (fold f xs a) = length a"
  by (induction xs arbitrary: a) simp_all

subsection \<open>TensorChunk\<close>

text \<open>
  C7, as stated, lets the constructor raise whenever the requested length leaves the
  bounds of the tensor. On a tensor of 5 samples, offset 0 and requested length 10, the
  length is beyond the bounds, and the constructor returns a chunk of length 5: the
  request is clamped by \<^verbatim>\<open>Math.min\<close>, not refused.
\<close>

theorem TensorChunk_length_clamped:
  "(10::int) > int (last [5::nat]) - 0
   \<and> TensorChunk_new \<lparr>data = zeros 5, shape = [5]\<rparr> 0 (Some 10)
       = Inr \<lparr>tensor = \<lparr>data = zeros 5, shape = [5]\<rparr>, offset = 0, length_c = 5\<rparr>"
  by (simp add: TensorChunk_new_def)

lemma padded_error_iff:
  assumes "shape (tensor c) \<noteq> []" "0 \<le> length_c c"
  shows "(\<exists>e. padded c target = Inl e) \<longleftrightarrow> target < length_c c"
    and "target < length_c c \<Longrightarrow> padded c target = Inl TargetLengthBelowLength"
proof -
  show "(\<exists>e. padded c target = Inl e) \<longleftrightarrow> target < length_c c"
    using assms by (auto simp: padded_def Let_def length_fold_preserve case_prod_beta)
  show "target < length_c c \<Longrightarrow> padded c target = Inl TargetLengthBelowLength"
    using assms by (auto simp: padded_def Let_def)
qed

text \<open>
  C7, amended. For a tensor with at least one dimension, the constructor raises exactly
  when the offset is negative or not below the length of the trailing dimension; it
  never raises for the requested length, which it clamps to \<open>totalLength - offset\<close>.
  Every chunk constructed has \<open>0 \<le> offset < totalLength\<close> and
  \<open>length \<le> totalLength - offset\<close>. For a chunk constructed with no requested length
  or a non-negative one, \<open>padded target\<close> raises exactly when \<open>target\<close> is below the
  length of the chunk, and what it raises is the error of that check.
\<close>

theorem TensorChunk_bounds:
  assumes "shape t \<noteq> []"
  shows "((\<exists>e. TensorChunk_new t off l = Inl e) \<longleftrightarrow> (off < 0 \<or> off \<ge> int (last (shape t))))
    \<and> (\<forall>c. TensorChunk_new t off l = Inr c \<longrightarrow>
          0 \<le> offset c \<and> offset c < int (last (shape t))
          \<and> length_c c \<le> int (last (shape t)) - offset c
          \<and> (case l of None \<Rightarrow> length_c c = int (last (shape t)) - off
              | Some r \<Rightarrow> length_c c = min (int (last (shape t)) - off) r)
          \<and> ((case l of None \<Rightarrow> True | Some r \<Rightarrow> 0 \<le> r) \<longrightarrow>
               (\<forall>target. ((\<exists>e. padded c target = Inl e) \<longleftrightarrow> target < length_c c)
                  \<and> (target < length_c c \<longrightarrow> padded c target = Inl TargetLengthBelowLength))))"
proof -
  have a: "(\<exists>e. TensorChunk_new t off l = Inl e) \<longleftrightarrow> (off < 0 \<or> off \<ge> int (last (shape t)))"
    using assms by (auto simp: TensorChunk_new_def Let_def)
  have b: "0 \<le> offset c \<and> offset c < int (last (shape t))
          \<and> length_c c \<le> int (last (shape t)) - offset c
          \<and> (case l of None \<Rightarrow> length_c c = int (last (shape t)) - off
              | Some r \<Rightarrow> length_c c = min (int (last (shape t)) - off) r)
          \<and> tensor c = t \<and> offset c = off"
    if "TensorChunk_new t off l = Inr c" for c
    using that assms by (auto simp: TensorChunk_new_def Let_def split: if_splits option.splits)
  have c: "((\<exists>e. padded c target = Inl e) \<longleftrightarrow> target < length_c c)
                  \<and> (target < length_c c \<longrightarrow> padded c target = Inl TargetLengthBelowLength)"
    if "TensorChunk_new t off l = Inr c" "case l of None \<Rightarrow> True | Some r \<Rightarrow> 0 \<le> r" for c target
  proof -
    from b[OF that(1)] that(2) have "0 \<le> length_c c" "shape (tensor c) \<noteq> []"
      using assms by (auto split: option.splits)
    then show ?thesis using padded_error_iff[of c target] by blast
  qed
  show ?thesis using a b c by blast
qed

theorem TensorChunk_bounds_witness:
  "TensorChunk_new \<lparr>data = zeros 5, shape = [5]\<rparr> 2 (Some 2)
     = Inr \<lparr>tensor = \<lparr>data = zeros 5, shape = [5]\<rparr>, offset = 2, length_c = 2\<rparr>
   \<and> (\<exists>e. TensorChunk_new \<lparr>data = zeros 5, shape = [5]\<rparr> 5 (Some 2) = Inl e)
   \<and> (\<exists>e. padded \<lparr>tensor = \<lparr>data = zeros 5, shape = [5]\<rparr>, offset = 2, length_c = 2\<rparr> 1 = Inl e)
   \<and> \<not> (\<exists>e. padded \<lparr>tensor = \<lparr>data = zeros 5, shape = [5]\<rparr>, offset = 2, length_c = 2\<rparr> 4 = Inl e)"
proof -
  let ?t = "\<lparr>data = zeros 5, shape = [5]\<rparr>"
  let ?c = "\<lparr>tensor = ?t, offset = 2, length_c = 2\<rparr>"
  have ne: "shape ?t \<noteq> []" by simp
  have mk: "TensorChunk_new ?t 2 (Some 2) = Inr ?c" by (simp add: TensorChunk_new_def)
  have e5: "\<exists>e. TensorChunk_new ?t 5 (Some 2) = Inl e"
    using TensorChunk_bounds[OF ne, of 5 "Some 2"] by simp
  have pd: "\<forall>target. ((\<exists>e. padded ?c target = Inl e) \<longleftrightarrow> target < length_c ?c)"
    using TensorChunk_bounds[OF ne, of 2 "Some 2"] mk by simp
  show ?thesis using mk e5 pd by simp
qed

subsection \<open>The 32-bit operators on small values\<close>

lemma js_shr1_eq: "0 \<le> a \<Longrightarrow> a < 2 ^ 31 \<Longrightarrow> js_shr1 a = a div 2"
  unfolding js_shr1_def
  by (simp add: sint_signed_drop_bit_eq sint_sbintrunc' signed_take_bit_int_eq_self drop_bit_eq_div)

lemma js_shl1_eq: "0 \<le> a \<Longrightarrow> a < 2 ^ 30 \<Longrightarrow> js_shl1 a = 2 * a"
proof -
  assume a: "0 \<le> a" "a < 2 ^ 30"
  have p: "js_shl1 a = sint (word_of_int (2 * a) :: 32 word)"
    by (simp add: js_shl1_def push_bit_eq_mult mult.commute)
  have "sint (word_of_int (2 * a) :: 32 word) = 2 * a"
    unfolding sint_sbintrunc' using a by (intro signed_take_bit_int_eq_self) auto
  then show ?thesis using p by simp
qed

lemma and_pred_nat: "(n AND (n - 1) = 0) \<longleftrightarrow> (n = 0 \<or> (\<exists>k. n = 2 ^ k))" for n :: nat
proof (induction n rule: less_induct)
  case (less n)
  show ?case
  proof (cases "n = 0")
    case True then show ?thesis by simp
  next
    case n0: False
    show ?thesis
    proof (cases "even n")
      case True
      then obtain m where m: "n = 2 * m" by (auto elim: evenE)
      with n0 have m0: "m \<noteq> 0" by simp
      have "n - 1 = 2 * (m - 1) + 1" using m m0 by simp
      then have "n AND (n - 1) = 2 * (m AND (m - 1))"
        using m by (simp add: and_nat_rec[of "2 * m"])
      moreover have "(m AND (m - 1) = 0) \<longleftrightarrow> (m = 0 \<or> (\<exists>k. m = 2 ^ k))"
        using less.IH[of m] m m0 by simp
      moreover have "(\<exists>k. n = 2 ^ k) \<longleftrightarrow> (\<exists>k. m = 2 ^ k)"
      proof
        assume "\<exists>k. n = 2 ^ k"
        then obtain k where k: "n = 2 ^ k" by blast
        with m m0 have "k \<noteq> 0" by (cases k) auto
        then obtain k' where "k = Suc k'" by (cases k) auto
        with k m show "\<exists>k. m = 2 ^ k" by auto
      next
        assume "\<exists>k. m = 2 ^ k"
        then obtain k where "m = 2 ^ k" by blast
        then have "n = 2 ^ Suc k" using m by simp
        then show "\<exists>k. n = 2 ^ k" by blast
      qed
      ultimately show ?thesis using n0 m0 by simp
    next
      case False
      then obtain m where m: "n = 2 * m + 1" by (auto elim: oddE)
      have "n AND (n - 1) = 2 * m"
        using m and_nat_rec[of "Suc (2 * m)" "2 * m"] by simp
      moreover have "(\<exists>k. n = 2 ^ k) \<longleftrightarrow> m = 0"
      proof
        assume "\<exists>k. n = 2 ^ k"
        then obtain k where k: "n = 2 ^ k" by blast
        show "m = 0"
        proof (cases k)
          case 0 with k m show ?thesis by simp
        next
          case (Suc k') with k False show ?thesis by simp
        qed
      next
        assume "m = 0" then have "n = 2 ^ 0" using m by simp
        then show "\<exists>k. n = 2 ^ k" by blast
      qed
      ultimately show ?thesis using n0 by simp
    qed
  qed
qed

lemma js_and_pred:
  assumes "n < 2 ^ 31"
  shows "js_and (int n) (int n - 1) = 0 \<longleftrightarrow> (n = 0 \<or> (\<exists>k. n = 2 ^ k))"
proof (cases "n = 0")
  case True
  then show ?thesis by (simp add: js_and_def)
next
  case False
  then have eq: "int n - 1 = int (n - 1)" by simp
  have "(word_of_int (int n) :: 32 word) AND word_of_int (int (n - 1))
          = word_of_int (int n AND int (n - 1))"
    by (simp add: of_int_and_eq)
  then have j: "js_and (int n) (int n - 1) = sint (word_of_int (int n AND int (n - 1)) :: 32 word)"
    by (simp add: js_and_def eq)
  have "int n AND int (n - 1) \<le> int n" by (rule AND_upper1) simp
  then have up: "int n AND int (n - 1) < 2 ^ 31" using assms by simp
  have lo: "0 \<le> int n AND int (n - 1)" by simp
  have lo': "- (2 ^ 31) \<le> int n AND int (n - 1)"
    by (rule order_trans[OF _ lo]) simp
  have s: "sint (word_of_int (int n AND int (n - 1)) :: 32 word) = int n AND int (n - 1)"
    using signed_take_bit_int_eq_self[OF lo' up] by (simp add: sint_sbintrunc')
  have "int n AND int (n - 1) = int (n AND (n - 1))"
    by (simp add: of_nat_and_eq)
  then show ?thesis using and_pred_nat[of n] False j s by simp
qed

section \<open>The transform of fft\<close>

subsection \<open>The bit-reversal loop\<close>

text \<open>
  \<open>brev m i\<close> is \<open>i\<close> with its lowest \<open>m\<close> bits in reverse order. The variable
  \<open>j\<close> of the first loop of \<open>fft\<close> holds \<open>brev m i\<close>, and the loop leaves at every
  position \<open>t\<close> the input sample of position \<open>brev m t\<close>.
\<close>

fun brev :: "nat \<Rightarrow> nat \<Rightarrow> nat" where
  "brev 0 i = 0"
| "brev (Suc m) i = (i mod 2) * 2 ^ m + brev m (i div 2)"

lemma brev_less: "brev m i < 2 ^ m"
proof (induction m arbitrary: i)
  case 0 show ?case by simp
next
  case (Suc m)
  have "i mod 2 = 0 \<or> i mod 2 = 1" by auto
  then have a: "(i mod 2) * 2 ^ m \<le> (2::nat) ^ m" by auto
  have b: "brev m (i div 2) < 2 ^ m" by (rule Suc.IH)
  have "brev (Suc m) i = (i mod 2) * 2 ^ m + brev m (i div 2)" by simp
  moreover have "(2::nat) ^ Suc m = 2 ^ m + 2 ^ m" by simp
  ultimately show ?case using a b by linarith
qed

lemma brev_alt: "i < 2 ^ Suc m \<Longrightarrow> brev (Suc m) i = 2 * brev m (i mod 2 ^ m) + i div 2 ^ m"
proof (induction m arbitrary: i)
  case 0
  then show ?case by simp
next
  case (Suc m)
  have i2: "i div 2 < 2 ^ Suc m" using Suc.prems by simp
  have a: "(i mod 2 ^ Suc m) mod 2 = i mod 2"
    by (simp add: mod_mod_cancel)
  have b: "(i mod 2 ^ Suc m) div 2 = (i div 2) mod 2 ^ m"
    by (simp add: mod_mult2_eq)
  have c: "i div 2 ^ Suc m = (i div 2) div 2 ^ m"
    by (simp add: div_mult2_eq)
  have "brev (Suc (Suc m)) i = (i mod 2) * 2 ^ Suc m + brev (Suc m) (i div 2)" by simp
  also have "\<dots> = (i mod 2) * 2 ^ Suc m + (2 * brev m ((i div 2) mod 2 ^ m) + (i div 2) div 2 ^ m)"
    using Suc.IH[OF i2] by simp
  also have "\<dots> = 2 * brev (Suc m) (i mod 2 ^ Suc m) + i div 2 ^ Suc m"
    unfolding brev.simps(2)[of m "i mod 2 ^ Suc m"] a b c by simp
  finally show ?case .
qed

lemma brev_brev: "i < 2 ^ m \<Longrightarrow> brev m (brev m i) = i"
proof (induction m arbitrary: i)
  case 0
  then show ?case by simp
next
  case (Suc m)
  let ?j = "brev (Suc m) i"
  have jl: "?j < 2 ^ Suc m" by (rule brev_less)
  have bl: "brev m (i div 2) < 2 ^ m" by (rule brev_less)
  have i2: "i div 2 < 2 ^ m" using Suc.prems by simp
  have jm: "?j mod 2 ^ m = brev m (i div 2)" using bl by simp
  have jd: "?j div 2 ^ m = i mod 2" using bl by simp
  have "brev (Suc m) ?j = 2 * brev m (?j mod 2 ^ m) + ?j div 2 ^ m"
    by (rule brev_alt[OF jl])
  also have "\<dots> = 2 * (i div 2) + i mod 2"
    unfolding jm jd using Suc.IH[OF i2] by simp
  also have "\<dots> = i" by simp
  finally show ?case .
qed


lemma bitrev_carry_brev:
  "Suc i < 2 ^ Suc m \<Longrightarrow> m \<le> 30 \<Longrightarrow>
   \<exists>j' k'. bitrev_carry (int (brev (Suc m) i)) (2 ^ m) = Some (j', k')
            \<and> j' + k' = int (brev (Suc m) (Suc i))"
proof (induction m arbitrary: i)
  case 0
  then have "i = 0" by simp
  then show ?case by (subst bitrev_carry.simps) simp
next
  case (Suc m)
  show ?case
  proof (cases "even i")
    case True
    then have e: "i mod 2 = 0" "Suc i mod 2 = 1" "Suc i div 2 = i div 2" by auto
    have lt: "brev (Suc m) (i div 2) < 2 ^ Suc m" by (rule brev_less)
    have b: "brev (Suc (Suc m)) i = brev (Suc m) (i div 2)"
      using e by (simp del: brev.simps add: brev.simps(2)[of "Suc m" i])
    have b': "brev (Suc (Suc m)) (Suc i) = 2 ^ Suc m + brev (Suc m) (i div 2)"
      using e by (simp del: brev.simps add: brev.simps(2)[of "Suc m" "Suc i"])
    have "\<not> (2 ^ Suc m \<le> int (brev (Suc m) (i div 2)))"
      using lt by (metis not_le of_nat_less_iff of_nat_numeral of_nat_power)
    then have "bitrev_carry (int (brev (Suc (Suc m)) i)) (2 ^ Suc m)
        = Some (int (brev (Suc m) (i div 2)), 2 ^ Suc m)"
      unfolding b by (subst bitrev_carry.simps) simp
    then show ?thesis unfolding b' by simp
  next
    case False
    then have e: "i mod 2 = 1" "Suc i mod 2 = 0" "Suc i div 2 = Suc (i div 2)"
      by (auto simp: mod2_eq_if elim: oddE)
    have b: "brev (Suc (Suc m)) i = 2 ^ Suc m + brev (Suc m) (i div 2)"
      using e by (simp del: brev.simps add: brev.simps(2)[of "Suc m" i])
    have b': "brev (Suc (Suc m)) (Suc i) = brev (Suc m) (Suc (i div 2))"
      using e by (simp del: brev.simps add: brev.simps(2)[of "Suc m" "Suc i"])
    have "Suc i div 2 < 2 ^ Suc m" using Suc.prems(1) by simp
    then have i2: "Suc (i div 2) < 2 ^ Suc m" using e by simp
    have "(2::int) ^ Suc m < 2 ^ 31" using Suc.prems(2) by (intro power_strict_increasing) auto
    then have sh: "js_shr1 (2 ^ Suc m) = 2 ^ m" by (simp add: js_shr1_eq)
    from Suc.IH[OF i2] Suc.prems(2)
    obtain j' k' where jk: "bitrev_carry (int (brev (Suc m) (i div 2))) (2 ^ m) = Some (j', k')"
      "j' + k' = int (brev (Suc m) (Suc (i div 2)))" by auto
    have "bitrev_carry (int (brev (Suc (Suc m)) i)) (2 ^ Suc m)
        = bitrev_carry (int (brev (Suc m) (i div 2))) (2 ^ m)"
      unfolding b by (subst bitrev_carry.simps) (simp add: sh[unfolded power_Suc] del: brev.simps)
    then show ?thesis unfolding b' using jk by (simp del: brev.simps)
  qed
qed

definition brev_upto :: "nat \<Rightarrow> nat \<Rightarrow> 'a list \<Rightarrow> 'a list" where
  "brev_upto m i0 x = map (\<lambda>t. if t < i0 \<or> brev m t < i0 then x ! brev m t else x ! t) [0..<length x]"

lemma length_brev_upto [simp]: "length (brev_upto m i0 x) = length x"
  by (simp add: brev_upto_def)

lemma brev_upto_0: "brev_upto m 0 x = x"
  by (simp add: brev_upto_def map_nth)

lemma brev_eq_iff: "a < 2 ^ m \<Longrightarrow> b < 2 ^ m \<Longrightarrow> brev m a = b \<longleftrightarrow> a = brev m b"
  using brev_brev by metis

lemma brev_upto_step:
  assumes len: "length x = 2 ^ m" and i: "i < 2 ^ m"
  shows "(if i < brev m i
          then (brev_upto m i x)[i := brev_upto m i x ! brev m i, brev m i := brev_upto m i x ! i]
          else brev_upto m i x) = brev_upto m (Suc i) x"
proof -
  let ?j = "brev m i"
  have j: "?j < 2 ^ m" by (rule brev_less)
  have bj: "brev m ?j = i" using brev_brev[OF i] .
  show ?thesis
  proof (rule nth_equalityI)
    show "length (if i < ?j then (brev_upto m i x)[i := brev_upto m i x ! ?j, ?j := brev_upto m i x ! i]
          else brev_upto m i x) = length (brev_upto m (Suc i) x)" by simp
  next
    fix t assume "t < length (if i < ?j then (brev_upto m i x)[i := brev_upto m i x ! ?j, ?j := brev_upto m i x ! i]
          else brev_upto m i x)"
    then have t: "t < 2 ^ m" using len by (simp split: if_splits)
    have bt: "brev m t = i \<longleftrightarrow> t = ?j" using brev_eq_iff[OF t i] .
    have bt': "brev m t < 2 ^ m" by (rule brev_less)
    show "(if i < ?j then (brev_upto m i x)[i := brev_upto m i x ! ?j, ?j := brev_upto m i x ! i]
          else brev_upto m i x) ! t = brev_upto m (Suc i) x ! t"
    proof (cases "i < ?j")
      case True
      then show ?thesis
        using t i j bj bt len
        by (auto simp: brev_upto_def nth_list_update less_Suc_eq)
    next
      case False
      then show ?thesis
        using t i j bj bt len
        by (auto simp: brev_upto_def less_Suc_eq)
    qed
  qed
qed

lemma brev_upto_last:
  assumes len: "length x = 2 ^ m"
  shows "brev_upto m (2 ^ m - 1) x = map (\<lambda>t. x ! brev m t) [0..<2 ^ m]"
proof -
  have "(if t < 2 ^ m - 1 \<or> brev m t < 2 ^ m - 1 then x ! brev m t else x ! t) = x ! brev m t"
    if "t < 2 ^ m" for t
  proof (cases "t < 2 ^ m - 1 \<or> brev m t < 2 ^ m - 1")
    case True then show ?thesis by simp
  next
    case False
    have "brev m t < 2 ^ m" by (rule brev_less)
    with False that have "brev m t = t" by linarith
    then show ?thesis by simp
  qed
  then show ?thesis unfolding brev_upto_def len by (intro map_cong) auto
qed

lemma swap_lists:
  "i < length a \<Longrightarrow> j < length a \<Longrightarrow> swap a (int i) (int j) = a[i := a ! j, j := a ! i]"
  by (simp add: swap_def sti_def rdi_def st_def rd_def)

lemma bit_reversal_run:
  assumes len: "length re = 2 ^ m" "length im = 2 ^ m" and m: "m \<le> 30"
  shows "i0 \<le> 2 ^ m - 1 \<Longrightarrow>
     \<exists>j. bit_reversal (2 ^ m) [i0..<2 ^ m - 1]
            (brev_upto m i0 re, brev_upto m i0 im, int (brev m i0))
          = Some (brev_upto m (2 ^ m - 1) re, brev_upto m (2 ^ m - 1) im, j)"
proof (induction "2 ^ m - 1 - i0" arbitrary: i0)
  case 0
  then have "i0 = 2 ^ m - 1" by simp
  then show ?case by simp
next
  case (Suc d)
  then have i0: "i0 < 2 ^ m - 1" by simp
  then have i0': "i0 < 2 ^ m" "Suc i0 < 2 ^ m" by simp_all
  have up: "[i0..<2 ^ m - 1] = i0 # [Suc i0..<2 ^ m - 1]" using i0 by (simp add: upt_conv_Cons)
  have "m \<noteq> 0" using i0 by (cases m) auto
  then obtain m' where m': "m = Suc m'" by (cases m) auto
  have "(2::int) ^ m < 2 ^ 31" using m by (intro power_strict_increasing) auto
  then have sh: "js_shr1 (2 ^ m) = 2 ^ m'" by (simp add: js_shr1_eq m')
  from bitrev_carry_brev[of i0 m'] i0' m m'
  obtain j' k' where jk: "bitrev_carry (int (brev m i0)) (2 ^ m') = Some (j', k')"
    "j' + k' = int (brev m (Suc i0))" by auto
  have jl: "brev m i0 < 2 ^ m" by (rule brev_less)
  have sw: "(if int i0 < int (brev m i0)
             then (swap (brev_upto m i0 re) (int i0) (int (brev m i0)),
                   swap (brev_upto m i0 im) (int i0) (int (brev m i0)))
             else (brev_upto m i0 re, brev_upto m i0 im))
            = (brev_upto m (Suc i0) re, brev_upto m (Suc i0) im)"
    using brev_upto_step[OF len(1) i0'(1)] brev_upto_step[OF len(2) i0'(1)] i0' jl len
    by (auto simp: swap_lists split: if_splits)
  have d: "d = 2 ^ m - 1 - Suc i0" using Suc.hyps(2) by simp
  have le: "Suc i0 \<le> 2 ^ m - 1" using i0 by simp
  from Suc.hyps(1)[OF d le] obtain j where
    ih: "bit_reversal (2 ^ m) [Suc i0..<2 ^ m - 1]
            (brev_upto m (Suc i0) re, brev_upto m (Suc i0) im, int (brev m (Suc i0)))
          = Some (brev_upto m (2 ^ m - 1) re, brev_upto m (2 ^ m - 1) im, j)" by blast
  show ?case
    unfolding up bit_reversal.simps sw sh using jk ih by (simp add: Let_def)
qed


subsection \<open>The butterfly loops on finite samples\<close>

text \<open>
  Two buffers of finite samples are the real and imaginary parts of a list of complex
  numbers. On such buffers each loop of \<open>fft\<close> is a function on complex lists.
\<close>

definition re_of :: "complex list \<Rightarrow> sample list" where
  "re_of c = map (\<lambda>z. Fin (Re z)) c"

definition im_of :: "complex list \<Rightarrow> sample list" where
  "im_of c = map (\<lambda>z. Fin (Im z)) c"

lemma length_re_of [simp]: "length (re_of c) = length c" by (simp add: re_of_def)
lemma length_im_of [simp]: "length (im_of c) = length c" by (simp add: im_of_def)

lemma rd_re_of: "t < length c \<Longrightarrow> rd (re_of c) t = Fin (Re (c ! t))"
  by (simp add: rd_def re_of_def)

lemma rd_im_of: "t < length c \<Longrightarrow> rd (im_of c) t = Fin (Im (c ! t))"
  by (simp add: rd_def im_of_def)

lemma rdi_int: "rdi xs (int t) = rd xs t" by (simp add: rdi_def)
lemma sti_int: "sti xs (int t) v = st xs t v" by (simp add: sti_def)

lemma st_re_of: "st (re_of c) t (Fin (Re z)) = re_of (c[t := z])"
  by (simp add: st_def re_of_def map_update)

lemma st_im_of: "st (im_of c) t (Fin (Im z)) = im_of (c[t := z])"
  by (simp add: st_def im_of_def map_update)

definition bfly :: "complex \<Rightarrow> nat \<Rightarrow> nat \<Rightarrow> complex list \<Rightarrow> complex list" where
  "bfly w k h c = (c[k + h := c ! k - w * c ! (k + h)])[k := c ! k + w * c ! (k + h)]"

lemma length_bfly [simp]: "length (bfly w k h c) = length c" by (simp add: bfly_def)

lemma butterfly_cx:
  assumes "i + j + h < length c" "0 < h"
  shows "butterfly angle (int i) (int h) j (re_of c, im_of c, Re w, Im w)
       = (re_of (bfly w (i + j) h c), im_of (bfly w (i + j) h c),
          Re (w * cis angle), Im (w * cis angle))"
proof -
  let ?k = "i + j" and ?l = "i + j + h"
  have k: "?k < length c" and l: "?l < length c" and kl: "?k \<noteq> ?l" using assms by simp_all
  show ?thesis
    unfolding butterfly_def Let_def of_nat_add[symmetric] rdi_int sti_int
    using k l kl
    by (simp add: rd_def st_def re_of_def im_of_def bfly_def map_update nth_list_update)
qed

definition blk_upto :: "complex \<Rightarrow> nat \<Rightarrow> nat \<Rightarrow> nat \<Rightarrow> complex list \<Rightarrow> complex list" where
  "blk_upto W i h J c =
     map (\<lambda>t. if i \<le> t \<and> t < i + J then c ! t + W ^ (t - i) * c ! (t + h)
               else if i + h \<le> t \<and> t < i + h + J then c ! (t - h) - W ^ (t - h - i) * c ! t
               else c ! t) [0..<length c]"

lemma length_blk_upto [simp]: "length (blk_upto W i h J c) = length c"
  by (simp add: blk_upto_def)

lemma blk_upto_0: "blk_upto W i h 0 c = c"
  by (rule nth_equalityI) (auto simp: blk_upto_def)

lemma blk_upto_Suc:
  assumes "J < h" "i + 2 * h \<le> length c"
  shows "bfly (W ^ J) (i + J) h (blk_upto W i h J c) = blk_upto W i h (Suc J) c"
proof (rule nth_equalityI)
  show "length (bfly (W ^ J) (i + J) h (blk_upto W i h J c)) = length (blk_upto W i h (Suc J) c)"
    by simp
next
  fix t assume "t < length (bfly (W ^ J) (i + J) h (blk_upto W i h J c))"
  then have t: "t < length c" by simp
  have a: "blk_upto W i h J c ! (i + J) = c ! (i + J)"
    using assms by (simp add: blk_upto_def)
  have b: "blk_upto W i h J c ! (i + J + h) = c ! (i + J + h)"
    using assms by (simp add: blk_upto_def)
  show "bfly (W ^ J) (i + J) h (blk_upto W i h J c) ! t = blk_upto W i h (Suc J) c ! t"
  proof (cases "t = i + J")
    case True
    then show ?thesis using assms t a b by (simp add: bfly_def blk_upto_def[of W i h "Suc J"])
  next
    case n1: False
    show ?thesis
    proof (cases "t = i + J + h")
      case True
      then show ?thesis using assms t a b
        by (simp add: bfly_def blk_upto_def[of W i h "Suc J"] add.commute add.left_commute)
    next
      case False
      then have "bfly (W ^ J) (i + J) h (blk_upto W i h J c) ! t = blk_upto W i h J c ! t"
        using n1 by (simp add: bfly_def)
      also have "\<dots> = blk_upto W i h (Suc J) c ! t"
        using n1 False t by (auto simp: blk_upto_def less_Suc_eq)
      finally show ?thesis .
    qed
  qed
qed

lemma block_fold:
  assumes "i + 2 * h \<le> length c"
  shows "J \<le> h \<Longrightarrow>
    fold (butterfly angle (int i) (int h)) [0..<J] (re_of c, im_of c, 1, 0)
      = (re_of (blk_upto (cis angle) i h J c), im_of (blk_upto (cis angle) i h J c),
         Re (cis angle ^ J), Im (cis angle ^ J))"
proof (induction J)
  case 0
  show ?case by (simp add: blk_upto_0)
next
  case (Suc J)
  then have J: "J < h" by simp
  let ?c = "blk_upto (cis angle) i h J c"
  have len: "i + J + h < length ?c" "0 < h" using J assms by simp_all
  have "fold (butterfly angle (int i) (int h)) [0..<Suc J] (re_of c, im_of c, 1, 0)
      = butterfly angle (int i) (int h) J (re_of ?c, im_of ?c, Re (cis angle ^ J), Im (cis angle ^ J))"
    using Suc.IH J by simp
  also have "\<dots> = (re_of (bfly (cis angle ^ J) (i + J) h ?c), im_of (bfly (cis angle ^ J) (i + J) h ?c),
          Re (cis angle ^ J * cis angle), Im (cis angle ^ J * cis angle))"
    by (rule butterfly_cx[OF len])
  also have "\<dots> = (re_of (blk_upto (cis angle) i h (Suc J) c), im_of (blk_upto (cis angle) i h (Suc J) c),
         Re (cis angle ^ Suc J), Im (cis angle ^ Suc J))"
    unfolding blk_upto_Suc[OF J assms] by (simp add: mult.commute)
  finally show ?case .
qed

lemma fft_block_cx:
  assumes "i + 2 * h \<le> length c" "0 < h" "int (2 * h) < 2 ^ 31"
  shows "fft_block (int (2 * h)) (int i) (re_of c, im_of c)
       = (re_of (blk_upto (cis (- 2 * pi / real (2 * h))) i h h c),
          im_of (blk_upto (cis (- 2 * pi / real (2 * h))) i h h c))"
proof -
  have sh: "js_shr1 (int (2 * h)) = int h"
    using assms(3) by (subst js_shr1_eq) auto
  show ?thesis
    unfolding fft_block_def sh Let_def
    using block_fold[OF assms(1), of h "- 2 * pi / real (2 * h)"] by simp
qed


definition stage_upto :: "complex \<Rightarrow> nat \<Rightarrow> nat \<Rightarrow> complex list \<Rightarrow> complex list" where
  "stage_upto W h b c =
     map (\<lambda>t. if t < b * (2 * h)
               then (if t mod (2 * h) < h then c ! t + W ^ (t mod (2 * h)) * c ! (t + h)
                     else c ! (t - h) - W ^ (t mod (2 * h) - h) * c ! t)
               else c ! t) [0..<length c]"

lemma length_stage_upto [simp]: "length (stage_upto W h b c) = length c"
  by (simp add: stage_upto_def)

lemma stage_upto_0: "stage_upto W h 0 c = c"
  by (rule nth_equalityI) (auto simp: stage_upto_def)

lemma block_mod:
  assumes "b * (2 * h) \<le> t" "t < Suc b * (2 * h)"
  shows "t mod (2 * h) = t - b * (2 * h)"
proof -
  have "t = b * (2 * h) + (t - b * (2 * h))" using assms by simp
  moreover have "t - b * (2 * h) < 2 * h" using assms by simp
  ultimately show ?thesis by (metis mod_mult_self3 mod_less)
qed

lemma stage_upto_Suc:
  assumes "Suc b * (2 * h) \<le> length c" "0 < h"
  shows "blk_upto W (b * (2 * h)) h h (stage_upto W h b c) = stage_upto W h (Suc b) c"
proof (rule nth_equalityI)
  show "length (blk_upto W (b * (2 * h)) h h (stage_upto W h b c)) = length (stage_upto W h (Suc b) c)"
    by simp
next
  fix t assume "t < length (blk_upto W (b * (2 * h)) h h (stage_upto W h b c))"
  then have t: "t < length c" by simp
  let ?i = "b * (2 * h)"
  have S: "Suc b * (2 * h) = ?i + 2 * h" by simp
  consider (lo) "t < ?i" | (a) "?i \<le> t" "t < ?i + h" | (b) "?i + h \<le> t" "t < ?i + 2 * h"
    | (hi) "?i + 2 * h \<le> t" by linarith
  then show "blk_upto W ?i h h (stage_upto W h b c) ! t = stage_upto W h (Suc b) c ! t"
  proof cases
    case lo
    then show ?thesis using t by (simp add: blk_upto_def stage_upto_def)
  next
    case a
    have m: "t mod (2 * h) = t - ?i" using a by (intro block_mod) auto
    have th: "t + h < length c" using a assms by simp
    have r: "t - ?i < h" using a by linarith
    have "stage_upto W h (Suc b) c ! t = c ! t + W ^ (t - ?i) * c ! (t + h)"
      using a t m r by (simp add: stage_upto_def)
    moreover have th': "\<not> t + h < ?i" "\<not> t < ?i" using a by linarith+
    have "stage_upto W h b c ! t = c ! t" "stage_upto W h b c ! (t + h) = c ! (t + h)"
      using t th th' by (simp_all add: stage_upto_def)
    moreover have "blk_upto W ?i h h (stage_upto W h b c) ! t
        = stage_upto W h b c ! t + W ^ (t - ?i) * stage_upto W h b c ! (t + h)"
      using a t by (simp add: blk_upto_def)
    ultimately show ?thesis by simp
  next
    case b
    have m: "t mod (2 * h) = t - ?i" using b by (intro block_mod) auto
    have e: "t - ?i - h = t - h - ?i" by simp
    have r: "\<not> t - ?i < h" using b by linarith
    have na: "\<not> (?i \<le> t \<and> t < ?i + h)" using b by linarith
    have "stage_upto W h (Suc b) c ! t = c ! (t - h) - W ^ (t - ?i - h) * c ! t"
      using b t m r by (simp add: stage_upto_def)
    moreover have th: "t - h < length c" "\<not> t - h < ?i" "\<not> t < ?i" using b t by linarith+
    have "stage_upto W h b c ! t = c ! t" "stage_upto W h b c ! (t - h) = c ! (t - h)"
      using th t by (simp_all add: stage_upto_def)
    moreover have "blk_upto W ?i h h (stage_upto W h b c) ! t
        = stage_upto W h b c ! (t - h) - W ^ (t - h - ?i) * stage_upto W h b c ! t"
      using b t na unfolding blk_upto_def by (simp del: mult_Suc)
    ultimately show ?thesis using e by simp
  next
    case hi
    then show ?thesis using t by (simp add: blk_upto_def stage_upto_def)
  qed
qed

lemma blocks_run:
  assumes len: "length c = q * (2 * h)" and h: "0 < h" and bound: "int (q * (2 * h)) < 2 ^ 31"
    and W: "W = cis (- 2 * pi / real (2 * h))"
  shows "b \<le> q \<Longrightarrow>
     fft_blocks (int (q * (2 * h))) (int (2 * h)) (int (b * (2 * h)))
        (re_of (stage_upto W h b c), im_of (stage_upto W h b c))
     = Some (re_of (stage_upto W h q c), im_of (stage_upto W h q c))"
proof (induction "q - b" arbitrary: b)
  case 0
  then have "b = q" by simp
  then show ?case by (subst fft_blocks.simps) simp
next
  case (Suc d)
  then have b: "b < q" by simp
  then have lt: "int (b * (2 * h)) < int (q * (2 * h))" using h by simp
  have "Suc b * (2 * h) \<le> q * (2 * h)" using b by (intro mult_le_mono1) simp
  then have fit: "Suc b * (2 * h) \<le> length c" using len by simp
  then have fit': "b * (2 * h) + 2 * h \<le> length (stage_upto W h b c)" by simp
  have "q * (2 * h) \<ge> 2 * h" using b by (cases q) auto
  then have hb: "int (2 * h) < 2 ^ 31" using bound by linarith
  have blk: "fft_block (int (2 * h)) (int (b * (2 * h))) (re_of (stage_upto W h b c), im_of (stage_upto W h b c))
      = (re_of (stage_upto W h (Suc b) c), im_of (stage_upto W h (Suc b) c))"
    unfolding fft_block_cx[OF fit' h hb] W[symmetric] stage_upto_Suc[OF fit h] ..
  have nx: "int (b * (2 * h)) + int (2 * h) = int (Suc b * (2 * h))" by simp
  have d: "d = q - Suc b" using Suc.hyps(2) by simp
  have ih: "fft_blocks (int (q * (2 * h))) (int (2 * h)) (int (Suc b * (2 * h)))
        (re_of (stage_upto W h (Suc b) c), im_of (stage_upto W h (Suc b) c))
     = Some (re_of (stage_upto W h q c), im_of (stage_upto W h q c))"
    using Suc.hyps(1)[OF d] b by simp
  show ?case
    by (subst fft_blocks.simps) (simp only: lt if_True blk nx ih)
qed


definition stage :: "nat \<Rightarrow> complex list \<Rightarrow> complex list" where
  "stage s c = stage_upto (cis (- 2 * pi / real (2 * 2 ^ (s - 1)))) (2 ^ (s - 1)) (length c div 2 ^ s) c"

lemma length_stage [simp]: "length (stage s c) = length c"
  by (simp add: stage_def)

lemma length_fold_stage [simp]: "length (fold stage ss c) = length c"
  by (induction ss arbitrary: c) simp_all

lemma stage_blocks:
  assumes len: "length c = 2 ^ m" and s: "1 \<le> s" "s \<le> m" and m: "m \<le> 30"
  shows "fft_blocks (2 ^ m) (2 ^ s) 0 (re_of c, im_of c) = Some (re_of (stage s c), im_of (stage s c))"
proof -
  let ?h = "(2::nat) ^ (s - 1)" and ?q = "(2::nat) ^ (m - s)"
  have hs: "2 * ?h = 2 ^ s" using s by (cases s) auto
  have qm: "?q * (2 * ?h) = 2 ^ m" unfolding hs using s by (simp add: power_add[symmetric])
  have q: "length c div 2 ^ s = ?q" using len s by (simp add: power_diff)
  have "(2::int) ^ m < 2 ^ 31" using m by (intro power_strict_increasing) auto
  then have bound: "int (?q * (2 * ?h)) < 2 ^ 31" unfolding qm by simp
  have len': "length c = ?q * (2 * ?h)" using len qm by simp
  have i1: "(2::int) ^ m = int (?q * (2 * ?h))" unfolding qm by simp
  have i2: "(2::int) ^ s = int (2 * ?h)" unfolding hs by simp
  have i3: "(0::int) = int (0 * (2 * ?h))" by simp
  have "fft_blocks (int (?q * (2 * ?h))) (int (2 * ?h)) (int (0 * (2 * ?h)))
        (re_of (stage_upto (cis (- 2 * pi / real (2 * ?h))) ?h 0 c),
         im_of (stage_upto (cis (- 2 * pi / real (2 * ?h))) ?h 0 c))
     = Some (re_of (stage_upto (cis (- 2 * pi / real (2 * ?h))) ?h ?q c),
             im_of (stage_upto (cis (- 2 * pi / real (2 * ?h))) ?h ?q c))"
    by (rule blocks_run[OF len' _ bound refl]) simp_all
  then show ?thesis
    unfolding stage_upto_0 i1[symmetric] i2[symmetric] i3[symmetric] stage_def q .
qed

lemma stages_run:
  assumes m: "m \<le> 29"
  shows "length c = 2 ^ m \<Longrightarrow> 1 \<le> s \<Longrightarrow> s \<le> Suc m \<Longrightarrow>
    fft_stages (2 ^ m) (2 ^ s) (re_of c, im_of c)
      = Some (re_of (fold stage [s..<Suc m] c), im_of (fold stage [s..<Suc m] c))"
proof (induction "Suc m - s" arbitrary: s c)
  case 0
  then have s: "s = Suc m" by simp
  have "\<not> ((2::int) ^ Suc m \<le> 2 ^ m)" by simp
  then show ?case unfolding s by (subst fft_stages.simps) simp
next
  case (Suc d)
  then have s: "s \<le> m" by simp
  have le: "(2::int) ^ s \<le> 2 ^ m" using s by (intro power_increasing) auto
  have "(2::int) ^ s < 2 ^ 30" using s m by (intro power_strict_increasing) auto
  then have sh: "js_shl1 (2 ^ s) = 2 ^ Suc s" by (simp add: js_shl1_eq)
  have m30: "m \<le> 30" using m by simp
  have blocks: "fft_blocks (2 ^ m) (2 ^ s) 0 (re_of c, im_of c) = Some (re_of (stage s c), im_of (stage s c))"
    by (rule stage_blocks[OF Suc.prems(1) Suc.prems(2) s m30])
  have d: "d = Suc m - Suc s" using Suc.hyps(2) by simp
  have ih: "fft_stages (2 ^ m) (2 ^ Suc s) (re_of (stage s c), im_of (stage s c))
      = Some (re_of (fold stage [Suc s..<Suc m] (stage s c)), im_of (fold stage [Suc s..<Suc m] (stage s c)))"
    using Suc.hyps(1)[OF d, of "stage s c"] Suc.prems s by simp
  have up: "[s..<Suc m] = s # [Suc s..<Suc m]" using s by (simp add: upt_conv_Cons)
  show ?case
    by (subst fft_stages.simps) (simp only: le if_True blocks sh ih up fold_simps Option.bind.simps)
qed

subsection \<open>The stages compute the discrete Fourier transform\<close>

text \<open>
  \<open>D N g k\<close> is the transform of the \<open>N\<close> values \<open>g 0, \<dots>, g (N - 1)\<close> at frequency
  \<open>k\<close>. After the stage of block length \<open>2 ^ s\<close> each block holds the transform of
  the input samples of one residue class modulo \<open>2 ^ (m - s)\<close>.
\<close>

definition D :: "nat \<Rightarrow> (nat \<Rightarrow> complex) \<Rightarrow> nat \<Rightarrow> complex" where
  "D N g k = (\<Sum>j<N. g j * cis (- (2 * pi * real j * real k) / real N))"

lemma sum_even_odd:
  "(\<Sum>J<2 * N. f J) = (\<Sum>j<N. f (2 * j)) + (\<Sum>j<N. f (Suc (2 * j)))" for f :: "nat \<Rightarrow> complex"
  by (induction N) (simp_all add: algebra_simps)

lemma D_dit:
  assumes "0 < N"
  shows "D (2 * N) g k
       = D N (\<lambda>j. g (2 * j)) k + cis (- (2 * pi * real k) / real (2 * N)) * D N (\<lambda>j. g (Suc (2 * j))) k"
proof -
  have e: "- (2 * pi * real (2 * j) * real k) / real (2 * N) = - (2 * pi * real j * real k) / real N" for j
    using assms by (simp add: field_simps)
  have o: "- (2 * pi * real (Suc (2 * j)) * real k) / real (2 * N)
           = - (2 * pi * real k) / real (2 * N) + - (2 * pi * real j * real k) / real N" for j
    using assms by (simp add: field_simps)
  have "D (2 * N) g k = (\<Sum>j<N. g (2 * j) * cis (- (2 * pi * real (2 * j) * real k) / real (2 * N)))
        + (\<Sum>j<N. g (Suc (2 * j)) * cis (- (2 * pi * real (Suc (2 * j)) * real k) / real (2 * N)))"
    unfolding D_def by (rule sum_even_odd)
  also have "\<dots> = (\<Sum>j<N. g (2 * j) * cis (- (2 * pi * real j * real k) / real N))
        + (\<Sum>j<N. cis (- (2 * pi * real k) / real (2 * N))
                   * (g (Suc (2 * j)) * cis (- (2 * pi * real j * real k) / real N)))"
    unfolding e o cis_mult[symmetric] by (simp add: mult_ac)
  finally show ?thesis unfolding D_def sum_distrib_left .
qed

lemma D_shift:
  assumes "0 < N"
  shows "D N g (k + N) = D N g k"
proof -
  have "cis (- (2 * pi * real j * real (k + N)) / real N) = cis (- (2 * pi * real j * real k) / real N)" for j
  proof -
    have eq: "- (2 * pi * real j * real (k + N)) / real N
        = - (2 * pi * real j * real k) / real N + 2 * pi * (- real j)"
      using assms by (simp add: field_simps)
    have one: "cis (2 * pi * (- real j)) = 1"
      by (rule cis_multiple_2pi) simp
    have "cis (- (2 * pi * real j * real (k + N)) / real N)
        = cis (- (2 * pi * real j * real k) / real N) * cis (2 * pi * (- real j))"
      by (simp only: eq cis_mult)
    then show ?thesis by (simp only: one mult_1_right)
  qed
  then show ?thesis unfolding D_def by simp
qed

lemma twiddle_shift:
  assumes "0 < N"
  shows "cis (- (2 * pi * real (k + N)) / real (2 * N)) = - cis (- (2 * pi * real k) / real (2 * N))"
proof -
  have eq: "- (2 * pi * real (k + N)) / real (2 * N) = - (2 * pi * real k) / real (2 * N) + (- pi)"
    using assms by (simp add: field_simps)
  have one: "cis (- pi) = - 1" by (simp add: complex_eq_iff)
  have "cis (- (2 * pi * real (k + N)) / real (2 * N))
      = cis (- (2 * pi * real k) / real (2 * N)) * cis (- pi)"
    by (simp only: eq cis_mult)
  then show ?thesis by (simp only: one) simp
qed

definition dft_part :: "nat \<Rightarrow> nat \<Rightarrow> complex list \<Rightarrow> nat \<Rightarrow> complex" where
  "dft_part m s x t =
     D (2 ^ s) (\<lambda>j. x ! (brev (m - s) (t div 2 ^ s) + j * 2 ^ (m - s))) (t mod 2 ^ s)"

lemma dft_part_0: "dft_part m 0 x t = x ! brev m t"
  by (simp add: dft_part_def D_def)

lemma dft_part_full: "t < 2 ^ m \<Longrightarrow> dft_part m m x t = D (2 ^ m) (\<lambda>j. x ! j) t"
  by (simp add: dft_part_def)


lemma div_mod_block:
  fixes r h k :: nat
  assumes "r < h"
  shows "(k * h + r) div h = k" "(k * h + r) mod h = r"
  using assms by simp_all

lemma divmod_lower:
  assumes "0 < h" "t mod (2 * h) < h"
  shows "t div h = 2 * (t div (2 * h))" "t mod h = t mod (2 * h)"
        "(t + h) div h = Suc (2 * (t div (2 * h)))" "(t + h) mod h = t mod (2 * h)"
proof -
  let ?b = "t div (2 * h)" and ?r = "t mod (2 * h)"
  have "t = 2 * h * ?b + ?r" by simp
  moreover have "2 * h * ?b = (2 * ?b) * h" by simp
  ultimately have t: "t = (2 * ?b) * h + ?r" by (simp only:)
  show 1: "t div h = 2 * ?b" by (subst t) (rule div_mod_block[OF assms(2)])
  show 2: "t mod h = ?r" by (subst t) (rule div_mod_block[OF assms(2)])
  show "(t + h) div h = Suc (2 * ?b)" using 1 assms by simp
  show "(t + h) mod h = ?r" using 2 by simp
qed

lemma divmod_upper:
  assumes "0 < h" "\<not> t mod (2 * h) < h"
  shows "t div h = Suc (2 * (t div (2 * h)))" "t mod h = t mod (2 * h) - h"
        "(t - h) div h = 2 * (t div (2 * h))" "(t - h) mod h = t mod (2 * h) - h" "h \<le> t"
proof -
  let ?b = "t div (2 * h)" and ?r = "t mod (2 * h)"
  have r: "?r < 2 * h" using assms by simp
  have "t = 2 * h * ?b + ?r" by simp
  moreover have "2 * h * ?b = (2 * ?b) * h" by simp
  ultimately have t: "t = (2 * ?b) * h + ?r" by (simp only:)
  have t': "t = Suc (2 * ?b) * h + (?r - h)" using assms t by simp
  have rh: "?r - h < h" using r assms by linarith
  show 1: "t div h = Suc (2 * ?b)" by (subst t') (rule div_mod_block[OF rh])
  show 2: "t mod h = ?r - h" by (subst t') (rule div_mod_block[OF rh])
  show 3: "h \<le> t" using assms t by linarith
  have th: "t - h = (2 * ?b) * h + (?r - h)" using t' by simp
  show "(t - h) div h = 2 * ?b" by (subst th) (rule div_mod_block[OF rh])
  show "(t - h) mod h = ?r - h" by (subst th) (rule div_mod_block[OF rh])
qed

lemma stage_dit:
  assumes sm: "s < m" and c: "c = map (dft_part m s x) [0..<2 ^ m]"
  shows "stage (Suc s) c = map (dft_part m (Suc s) x) [0..<2 ^ m]"
proof (rule nth_equalityI)
  show "length (stage (Suc s) c) = length (map (dft_part m (Suc s) x) [0..<2 ^ m])"
    using c by simp
next
  fix t assume "t < length (stage (Suc s) c)"
  then have t: "t < 2 ^ m" using c by simp
  define h :: nat where "h = 2 ^ s"
  define p where "p = m - Suc s"
  define b where "b = t div (2 * h)"
  define r where "r = t mod (2 * h)"
  define W where "W = cis (- 2 * pi / real (2 * h))"
  define Ev where "Ev k = D h (\<lambda>j. x ! (brev p b + j * 2 ^ Suc p)) k" for k
  define Od where "Od k = D h (\<lambda>j. x ! (2 ^ p + brev p b + j * 2 ^ Suc p)) k" for k
  have h0: "0 < h" by (simp add: h_def)
  have ms: "m - s = Suc p" using sm by (simp add: p_def)
  have len: "length c = 2 ^ m" using c by simp
  have hm: "2 ^ m = 2 ^ (m - Suc s) * (2 * h)"
    using sm by (simp add: h_def power_add[symmetric] flip: power_Suc)
  have q: "length c div 2 ^ Suc s = 2 ^ (m - Suc s)"
    unfolding len using sm by (simp add: power_diff)
  have tq: "t < 2 ^ (m - Suc s) * (2 * h)" using t hm by simp
  have b0: "brev (Suc p) (2 * b) = brev p b" by simp
  have b1: "brev (Suc p) (Suc (2 * b)) = 2 ^ p + brev p b" by simp
  have Wp: "W ^ k = cis (- (2 * pi * real k) / real (2 * h))" for k
    unfolding W_def DeMoivre by (simp add: field_simps)
  have lower: "dft_part m s x t' = Ev k" if "t' div h = 2 * b" "t' mod h = k" for t' k
    unfolding dft_part_def Ev_def ms h_def[symmetric] that b0 ..
  have upper: "dft_part m s x t' = Od k" if "t' div h = Suc (2 * b)" "t' mod h = k" for t' k
    unfolding dft_part_def Od_def ms h_def[symmetric] that b1 ..
  have full: "dft_part m (Suc s) x t = D (2 * h) (\<lambda>J. x ! (brev p b + J * 2 ^ p)) r"
    unfolding dft_part_def b_def r_def p_def h_def by simp
  have dit: "D (2 * h) (\<lambda>J. x ! (brev p b + J * 2 ^ p)) k
        = Ev k + cis (- (2 * pi * real k) / real (2 * h)) * Od k" for k
    unfolding D_dit[OF h0] Ev_def Od_def by (simp add: algebra_simps)
  have st: "stage (Suc s) c ! t
      = (if r < h then c ! t + W ^ r * c ! (t + h) else c ! (t - h) - W ^ (r - h) * c ! t)"
    unfolding stage_def q
    using t tq len by (simp add: stage_upto_def h_def W_def r_def)
  show "stage (Suc s) c ! t = map (dft_part m (Suc s) x) [0..<2 ^ m] ! t"
  proof (cases "r < h")
    case True
    then have rr: "t mod (2 * h) < h" by (simp add: r_def)
    note dm = divmod_lower[OF h0 rr, folded b_def r_def]
    have "t + h < 2 * h * Suc b"
    proof -
      have "t = 2 * h * b + r" by (simp add: b_def r_def)
      then show ?thesis using True by simp
    qed
    moreover have "Suc b \<le> 2 ^ (m - Suc s)"
    proof -
      have "b < 2 ^ (m - Suc s)" unfolding b_def using tq by (simp add: less_mult_imp_div_less)
      then show ?thesis by simp
    qed
    then have "2 * h * Suc b \<le> 2 * h * 2 ^ (m - Suc s)" by (intro mult_le_mono2)
    ultimately have th: "t + h < 2 ^ m" using hm by (simp add: mult.commute)
    have ct: "c ! t = Ev r" using lower[OF dm(1) dm(2)] t c by simp
    have cth: "c ! (t + h) = Od r" using upper[OF dm(3) dm(4)] th c by simp
    show ?thesis
      using t True by (simp add: st ct cth full dit Wp)
  next
    case False
    then have rr: "\<not> t mod (2 * h) < h" by (simp add: r_def)
    note dm = divmod_upper[OF h0 rr, folded b_def r_def]
    have rh: "r = (r - h) + h" using False by simp
    have th: "t - h < 2 ^ m" using t by simp
    have ct: "c ! t = Od (r - h)" using upper[OF dm(1) dm(2)] t c by simp
    have cth: "c ! (t - h) = Ev (r - h)" using lower[OF dm(3) dm(4)] th c by simp
    have "D (2 * h) (\<lambda>J. x ! (brev p b + J * 2 ^ p)) r
        = Ev ((r - h) + h) + cis (- (2 * pi * real ((r - h) + h)) / real (2 * h)) * Od ((r - h) + h)"
      using dit[of r] rh by simp
    also have "\<dots> = Ev (r - h) - cis (- (2 * pi * real (r - h)) / real (2 * h)) * Od (r - h)"
      unfolding twiddle_shift[OF h0] Ev_def Od_def D_shift[OF h0] by simp
    finally show ?thesis
      using t False by (simp add: st ct cth full Wp)
  qed
qed


lemma fold_stage_dft:
  "s \<le> m \<Longrightarrow> fold stage [Suc s..<Suc m] (map (dft_part m s x) [0..<2 ^ m])
                = map (dft_part m m x) [0..<2 ^ m]"
proof (induction "m - s" arbitrary: s)
  case 0
  then show ?case by simp
next
  case (Suc d)
  then have s: "s < m" by simp
  have up: "[Suc s..<Suc m] = Suc s # [Suc (Suc s)..<Suc m]" using s by (simp add: upt_conv_Cons)
  have d: "d = m - Suc s" using Suc.hyps(2) by simp
  show ?case
    unfolding up fold_simps stage_dit[OF s refl]
    using Suc.hyps(1)[OF d] s by simp
qed

definition DFT :: "complex list \<Rightarrow> complex list" where
  "DFT c = map (D (length c) (\<lambda>j. c ! j)) [0..<length c]"

lemma length_DFT [simp]: "length (DFT c) = length c" by (simp add: DFT_def)

lemma brev_0 [simp]: "brev m 0 = 0"
  by (induction m) simp_all

lemma fold_stage_DFT:
  assumes "length c = 2 ^ m"
  shows "fold stage [1..<Suc m] (map (\<lambda>t. c ! brev m t) [0..<2 ^ m]) = DFT c"
proof -
  have a: "map (\<lambda>t. c ! brev m t) [0..<2 ^ m] = map (dft_part m 0 c) [0..<2 ^ m]"
    by (simp add: dft_part_0)
  have b: "map (dft_part m m c) [0..<2 ^ m] = DFT c"
    unfolding DFT_def assms by (intro map_cong) (simp_all add: dft_part_full)
  show ?thesis unfolding a using fold_stage_dft[of 0 m c] b by simp
qed

lemma brev_upto_re_of:
  assumes "length c = 2 ^ m"
  shows "brev_upto m (2 ^ m - 1) (re_of c) = re_of (map (\<lambda>t. c ! brev m t) [0..<2 ^ m])"
    and "brev_upto m (2 ^ m - 1) (im_of c) = im_of (map (\<lambda>t. c ! brev m t) [0..<2 ^ m])"
proof -
  have lt: "brev m t < length c" for t unfolding assms by (rule brev_less)
  show "brev_upto m (2 ^ m - 1) (re_of c) = re_of (map (\<lambda>t. c ! brev m t) [0..<2 ^ m])"
    using assms lt by (subst brev_upto_last) (simp_all add: re_of_def)
  show "brev_upto m (2 ^ m - 1) (im_of c) = im_of (map (\<lambda>t. c ! brev m t) [0..<2 ^ m])"
    using assms lt by (subst brev_upto_last) (simp_all add: im_of_def)
qed

lemma pow2_check: "m \<le> 30 \<Longrightarrow> js_and (2 ^ m) (2 ^ m - 1) = 0"
proof -
  assume m: "m \<le> 30"
  have "(2::nat) ^ m < 2 ^ 31" using m by (intro power_strict_increasing) auto
  from js_and_pred[OF this] show ?thesis by auto
qed

lemma fft_cx:
  assumes len: "length c = 2 ^ m" and m: "m \<le> 29"
  shows "fft (re_of c) (Some (im_of c)) = Some (Inr (re_of (DFT c), im_of (DFT c)))"
proof -
  have m30: "m \<le> 30" using m by simp
  have n: "int (length (re_of c)) = 2 ^ m" using len by simp
  have n1: "nat ((2::int) ^ m - 1) = 2 ^ m - 1"
    by (simp add: nat_diff_distrib' nat_power_eq)
  from bit_reversal_run[of "re_of c" m "im_of c" 0] len m30
  obtain j where br: "bit_reversal (2 ^ m) [0..<2 ^ m - 1] (re_of c, im_of c, 0)
      = Some (brev_upto m (2 ^ m - 1) (re_of c), brev_upto m (2 ^ m - 1) (im_of c), j)"
    by (auto simp: brev_upto_0)
  let ?c = "map (\<lambda>t. c ! brev m t) [0..<2 ^ m]"
  have st: "fft_stages (2 ^ m) 2 (re_of ?c, im_of ?c)
      = Some (re_of (fold stage [1..<Suc m] ?c), im_of (fold stage [1..<Suc m] ?c))"
    using stages_run[OF m, of ?c 1] by simp
  show ?thesis
    unfolding fft_def n Let_def
    using br brev_upto_re_of[OF len] st fold_stage_DFT[OF len]
    by (simp add: pow2_check[OF m30] n1)
qed


subsection \<open>The inverse transform\<close>

lemma cis_eq_1_imp:
  assumes "cis a = 1"
  shows "\<exists>z::int. a = real_of_int z * 2 * pi"
proof -
  from assms have "cos a = 1" by (simp add: complex_eq_iff)
  then show ?thesis by (simp add: cos_one_2pi_int)
qed

lemma root_sum:
  assumes j: "j < n" and l: "l < n"
  shows "(\<Sum>k<n. cis (2 * pi * real k * (real j - real l) / real n))
         = (if j = l then of_nat n else 0)"
proof (cases "j = l")
  case True
  then show ?thesis by simp
next
  case False
  define w where "w = cis (2 * pi * (real j - real l) / real n)"
  have n0: "0 < n" using j by simp
  have tm: "cis (2 * pi * real k * (real j - real l) / real n) = w ^ k" for k
    unfolding w_def DeMoivre by (simp add: field_simps)
  have w1: "w \<noteq> 1"
  proof
    assume "w = 1"
    then obtain z :: int where z: "2 * pi * (real j - real l) / real n = real_of_int z * 2 * pi"
      unfolding w_def using cis_eq_1_imp by blast
    then have "(2 * pi) * ((real j - real l) / real n) = (2 * pi) * real_of_int z"
      by (simp add: mult_ac)
    moreover have "2 * pi \<noteq> 0" by simp
    ultimately have "(real j - real l) / real n = real_of_int z"
      by (metis mult_left_cancel)
    then have "real j - real l = real_of_int z * real n"
      using n0 by (simp add: field_simps)
    then have "real_of_int (int j - int l) = real_of_int (z * int n)" by simp
    then have e: "int j - int l = z * int n" by (simp only: of_int_eq_iff)
    have "\<bar>int j - int l\<bar> < int n" using j l by linarith
    then have "\<bar>z\<bar> * int n < 1 * int n" unfolding e by (simp add: abs_mult)
    then have "\<bar>z\<bar> < 1" using n0 by simp
    then have "z = 0" by simp
    with e False show False by simp
  qed
  have wn: "w ^ n = 1"
  proof -
    have "w ^ n = cis (2 * pi * (real j - real l))"
      unfolding w_def DeMoivre using n0 by simp
    also have "\<dots> = 1" by (rule cis_multiple_2pi) simp
    finally show ?thesis .
  qed
  have "(\<Sum>k<n. w ^ k) = (w ^ n - 1) / (w - 1)" using w1 by (rule geometric_sum)
  then have "(\<Sum>k<n. w ^ k) = 0" using wn by simp
  then show ?thesis using False by (simp add: tm)
qed

lemma DFT_nth: "t < length c \<Longrightarrow> DFT c ! t = (\<Sum>j<length c. c ! j * cis (- (2 * pi * real j * real t) / real (length c)))"
  by (simp add: DFT_def D_def)

lemma idft_dft:
  assumes "c \<noteq> []"
  shows "map (\<lambda>z. cnj z / of_nat (length c)) (DFT (map cnj (DFT c))) = c"
proof (rule nth_equalityI)
  show "length (map (\<lambda>z. cnj z / of_nat (length c)) (DFT (map cnj (DFT c)))) = length c" by simp
next
  fix t assume "t < length (map (\<lambda>z. cnj z / of_nat (length c)) (DFT (map cnj (DFT c))))"
  then have t: "t < length c" by simp
  define n where "n = length c"
  have n0: "0 < n" using assms by (simp add: n_def)
  have "DFT (map cnj (DFT c)) ! t
      = (\<Sum>k<n. map cnj (DFT c) ! k * cis (- (2 * pi * real k * real t) / real n))"
    using t by (simp add: DFT_nth n_def)
  also have "\<dots> = (\<Sum>k<n. cnj (DFT c ! k) * cis (- (2 * pi * real k * real t) / real n))"
    by (intro sum.cong) (simp_all add: n_def)
  finally have "cnj (DFT (map cnj (DFT c)) ! t)
      = (\<Sum>k<n. DFT c ! k * cis (2 * pi * real k * real t / real n))"
    by (simp add: cis_cnj)
  also have "\<dots> = (\<Sum>k<n. (\<Sum>l<n. c ! l * cis (- (2 * pi * real l * real k) / real n))
                        * cis (2 * pi * real k * real t / real n))"
    by (intro sum.cong) (simp_all add: DFT_nth n_def)
  also have "\<dots> = (\<Sum>k<n. \<Sum>l<n. c ! l * cis (2 * pi * real k * (real t - real l) / real n))"
  proof (intro sum.cong refl)
    fix k
    have "cis (- (2 * pi * real l * real k) / real n) * cis (2 * pi * real k * real t / real n)
        = cis (2 * pi * real k * (real t - real l) / real n)" for l
      unfolding cis_mult add_divide_distrib[symmetric]
      by (rule arg_cong[of _ _ cis]) (simp add: algebra_simps)
    then show "(\<Sum>l<n. c ! l * cis (- (2 * pi * real l * real k) / real n))
                        * cis (2 * pi * real k * real t / real n)
        = (\<Sum>l<n. c ! l * cis (2 * pi * real k * (real t - real l) / real n))"
      by (simp add: sum_distrib_right mult.assoc)
  qed
  also have "\<dots> = (\<Sum>l<n. \<Sum>k<n. c ! l * cis (2 * pi * real k * (real t - real l) / real n))"
    by (rule sum.swap)
  also have "\<dots> = (\<Sum>l<n. c ! l * (if t = l then of_nat n else 0))"
  proof (intro sum.cong refl)
    fix l assume "l \<in> {..<n}"
    then have l: "l < n" by simp
    show "(\<Sum>k<n. c ! l * cis (2 * pi * real k * (real t - real l) / real n))
        = c ! l * (if t = l then of_nat n else 0)"
      unfolding sum_distrib_left[symmetric] root_sum[OF t[folded n_def] l] ..
  qed
  also have "\<dots> = c ! t * of_nat n"
    using t by (simp add: n_def sum.delta' if_distrib[of "\<lambda>x. _ * x"] cong: if_cong)
  finally have "cnj (DFT (map cnj (DFT c)) ! t) = c ! t * of_nat n" .
  then show "map (\<lambda>z. cnj z / of_nat (length c)) (DFT (map cnj (DFT c))) ! t = c ! t"
    using t n0 by (simp add: n_def)
qed


lemma fold_pair:
  "fold (\<lambda>i p. (F i (fst p), G i (snd p))) xs p = (fold F xs (fst p), fold G xs (snd p))"
  by (induction xs arbitrary: p) simp_all

lemma fold_st_const:
  "k \<le> length a \<Longrightarrow> fold (\<lambda>i a. st a i (f i)) [0..<k] a = map f [0..<k] @ drop k a"
proof (induction k)
  case 0
  then show ?case by simp
next
  case (Suc k)
  then have k: "k < length a" by simp
  have "fold (\<lambda>i a. st a i (f i)) [0..<Suc k] a = (map f [0..<k] @ drop k a)[k := f k]"
    using Suc by (simp add: st_def)
  also have "\<dots> = map f [0..<k] @ (drop k a)[0 := f k]"
    by (simp add: list_update_append)
  also have "(drop k a)[0 := f k] = f k # drop (Suc k) a"
    using k by (simp add: Cons_nth_drop_Suc[symmetric])
  finally show ?case by simp
qed

lemma fold_st_inplace:
  "k \<le> length a \<Longrightarrow> fold (\<lambda>i a. st a i (g (rd a i))) [0..<k] a = map g (take k a) @ drop k a"
proof (induction k)
  case 0
  then show ?case by simp
next
  case (Suc k)
  then have k: "k < length a" by simp
  let ?b = "map g (take k a) @ drop k a"
  have bk: "rd ?b k = a ! k" using k by (simp add: rd_def nth_append)
  have "fold (\<lambda>i a. st a i (g (rd a i))) [0..<Suc k] a = ?b[k := g (a ! k)]"
    using Suc bk by (simp add: st_def)
  also have "\<dots> = map g (take k a) @ (drop k a)[0 := g (a ! k)]"
    using k by (simp add: list_update_append)
  also have "(drop k a)[0 := g (a ! k)] = g (a ! k) # drop (Suc k) a"
    using k by (simp add: Cons_nth_drop_Suc[symmetric])
  finally show ?case using k by (simp add: take_Suc_conv_app_nth)
qed

lemma ifft_form:
  assumes "length im = length re"
  shows "ifft re im =
     bind_res (fft re (Some (map uminus im)))
       (\<lambda>(r, i). Some (Inr (fold (\<lambda>k r1. st r1 k (rd r1 k / Fin (real (length re)))) [0..<length re] r,
                              fold (\<lambda>k i1. st i1 k (- rd i1 k / Fin (real (length re)))) [0..<length re] i)))"
proof -
  have "fold (\<lambda>i a. st a i (- rd im i)) [0..<length re] (zeros (length re)) = map (\<lambda>i. - rd im i) [0..<length re]"
    by (subst fold_st_const) simp_all
  also have "\<dots> = map uminus im"
    using assms by (intro nth_equalityI) (simp_all add: rd_def)
  finally show ?thesis
    unfolding ifft_def Let_def
    by (simp add: case_prod_unfold
          fold_pair[of "\<lambda>k r1. st r1 k (rd r1 k / Fin (real (length re)))"
                       "\<lambda>k i1. st i1 k (- rd i1 k / Fin (real (length re)))"])
qed

lemma post_division:
  assumes "length Z = n" "0 < n"
  shows "fold (\<lambda>k r1. st r1 k (rd r1 k / Fin (real n))) [0..<n] (re_of Z)
           = re_of (map (\<lambda>z. cnj z / of_nat n) Z)"
    and "fold (\<lambda>k i1. st i1 k (- rd i1 k / Fin (real n))) [0..<n] (im_of Z)
           = im_of (map (\<lambda>z. cnj z / of_nat n) Z)"
proof -
  have "fold (\<lambda>k r1. st r1 k ((\<lambda>v. v / Fin (real n)) (rd r1 k))) [0..<n] (re_of Z)
      = map (\<lambda>v. v / Fin (real n)) (re_of Z)"
    using assms by (subst fold_st_inplace) simp_all
  then show "fold (\<lambda>k r1. st r1 k (rd r1 k / Fin (real n))) [0..<n] (re_of Z)
           = re_of (map (\<lambda>z. cnj z / of_nat n) Z)"
    using assms by (simp add: re_of_def)
  have "fold (\<lambda>k i1. st i1 k ((\<lambda>v. - v / Fin (real n)) (rd i1 k))) [0..<n] (im_of Z)
      = map (\<lambda>v. - v / Fin (real n)) (im_of Z)"
    using assms by (subst fold_st_inplace) simp_all
  then show "fold (\<lambda>k i1. st i1 k (- rd i1 k / Fin (real n))) [0..<n] (im_of Z)
           = im_of (map (\<lambda>z. cnj z / of_nat n) Z)"
    using assms by (simp add: im_of_def)
qed

lemma ifft_cx:
  assumes len: "length X = 2 ^ m" and m: "m \<le> 29"
  shows "ifft (re_of X) (im_of X)
       = Some (Inr (re_of (map (\<lambda>z. cnj z / of_nat (length X)) (DFT (map cnj X))),
                    im_of (map (\<lambda>z. cnj z / of_nat (length X)) (DFT (map cnj X)))))"
proof -
  have cj: "map uminus (im_of X) = im_of (map cnj X)" "re_of X = re_of (map cnj X)"
    by (simp_all add: im_of_def re_of_def)
  have f: "fft (re_of (map cnj X)) (Some (im_of (map cnj X)))
      = Some (Inr (re_of (DFT (map cnj X)), im_of (DFT (map cnj X))))"
    by (rule fft_cx[OF _ m]) (simp add: len)
  have n0: "0 < length X" using len by simp
  have l: "length (DFT (map cnj X)) = length X" by simp
  show ?thesis
    by (subst ifft_form)
       (simp_all add: cj(1) f[folded cj(2)] bind_res_def post_division[OF l n0])
qed

lemma fft_None: "fft re None = fft re (Some (zeros (length re)))"
  by (simp add: fft_def Let_def)

lemma real_signal:
  "re_of (map complex_of_real xs) = map Fin xs"
  "im_of (map complex_of_real xs) = zeros (length xs)"
  "zeros (length xs) = map (\<lambda>_. Fin 0) xs"
  by (simp_all add: re_of_def im_of_def zeros_def zero_sample_def map_replicate_const comp_def)


subsection \<open>fft returns on every buffer of a power-of-two length up to \<open>2 ^ 29\<close>\<close>

text \<open>
  The control flow of \<open>fft\<close> does not depend on the samples, so these hold for
  buffers with \<open>NaN\<close> too.
\<close>

lemma fft_blocks_total:
  assumes L: "0 < L"
  shows "b \<le> q \<Longrightarrow> \<exists>s'. fft_blocks (int (q * L)) (int L) (int (b * L)) s = Some s'"
proof (induction "q - b" arbitrary: b s)
  case 0
  then have "b = q" by simp
  then show ?case by (subst fft_blocks.simps) simp
next
  case (Suc d)
  then have b: "b < q" by simp
  then have lt: "int (b * L) < int (q * L)" using L by simp
  have nx: "int (b * L) + int L = int (Suc b * L)" by simp
  have d: "d = q - Suc b" using Suc.hyps(2) by simp
  from Suc.hyps(1)[OF d, of "fft_block (int L) (int (b * L)) s"] b
  obtain s' where "fft_blocks (int (q * L)) (int L) (int (Suc b * L)) (fft_block (int L) (int (b * L)) s) = Some s'"
    by auto
  then show ?case
    by (subst fft_blocks.simps) (simp only: lt if_True nx, blast)
qed

lemma fft_stages_total:
  assumes m: "m \<le> 29"
  shows "1 \<le> s \<Longrightarrow> s \<le> Suc m \<Longrightarrow> \<exists>s'. fft_stages (2 ^ m) (2 ^ s) st0 = Some s'"
proof (induction "Suc m - s" arbitrary: s st0)
  case 0
  then have s: "s = Suc m" by simp
  have "\<not> ((2::int) ^ Suc m \<le> 2 ^ m)" by simp
  then show ?case unfolding s by (subst fft_stages.simps) simp
next
  case (Suc d)
  then have s: "s \<le> m" by simp
  have le: "(2::int) ^ s \<le> 2 ^ m" using s by (intro power_increasing) auto
  have "(2::int) ^ s < 2 ^ 30" using s m by (intro power_strict_increasing) auto
  then have sh: "js_shl1 (2 ^ s) = 2 ^ Suc s" by (simp add: js_shl1_eq)
  have qm: "(2::nat) ^ (m - s) * 2 ^ s = 2 ^ m" using s by (simp add: power_add[symmetric])
  have i1: "(2::int) ^ m = int (2 ^ (m - s) * 2 ^ s)" unfolding qm by simp
  have i2: "(2::int) ^ s = int (2 ^ s)" by simp
  have i3: "(0::int) = int (0 * 2 ^ s)" by simp
  from fft_blocks_total[of "2 ^ s" 0 "2 ^ (m - s)" st0]
  obtain s1 where blocks: "fft_blocks (2 ^ m) (2 ^ s) 0 st0 = Some s1"
    unfolding i1[symmetric] i2[symmetric] i3[symmetric] by auto
  have d: "d = Suc m - Suc s" using Suc.hyps(2) by simp
  from Suc.hyps(1)[OF d, of s1] Suc.prems s
  obtain s' where ih: "fft_stages (2 ^ m) (2 ^ Suc s) s1 = Some s'" by auto
  show ?case
    by (subst fft_stages.simps) (simp only: le if_True blocks sh ih Option.bind.simps, blast)
qed

lemma bit_reversal_returns:
  assumes m: "m \<le> 30"
  shows "i0 \<le> 2 ^ m - 1 \<Longrightarrow>
     \<exists>r. bit_reversal (2 ^ m) [i0..<2 ^ m - 1] (re, im, int (brev m i0)) = Some r"
proof (induction "2 ^ m - 1 - i0" arbitrary: i0 re im)
  case 0
  then have "i0 = 2 ^ m - 1" by simp
  then show ?case by simp
next
  case (Suc d)
  then have i0: "i0 < 2 ^ m - 1" by simp
  then have i0': "i0 < 2 ^ m" "Suc i0 < 2 ^ m" by simp_all
  have up: "[i0..<2 ^ m - 1] = i0 # [Suc i0..<2 ^ m - 1]" using i0 by (simp add: upt_conv_Cons)
  have "m \<noteq> 0" using i0 by (cases m) auto
  then obtain m' where m': "m = Suc m'" by (cases m) auto
  have "(2::int) ^ m < 2 ^ 31" using m by (intro power_strict_increasing) auto
  then have sh: "js_shr1 (2 ^ m) = 2 ^ m'" by (simp add: js_shr1_eq m')
  from bitrev_carry_brev[of i0 m'] i0' m m'
  obtain j' k' where jk: "bitrev_carry (int (brev m i0)) (2 ^ m') = Some (j', k')"
    "j' + k' = int (brev m (Suc i0))" by auto
  obtain re1 im1 where sw: "(if int i0 < int (brev m i0)
             then (swap re (int i0) (int (brev m i0)), swap im (int i0) (int (brev m i0)))
             else (re, im)) = (re1, im1)"
    by (cases "int i0 < int (brev m i0)") auto
  have d: "d = 2 ^ m - 1 - Suc i0" using Suc.hyps(2) by simp
  have le: "Suc i0 \<le> 2 ^ m - 1" using i0 by simp
  from Suc.hyps(1)[OF d le, of re1 im1] obtain r where
    ih: "bit_reversal (2 ^ m) [Suc i0..<2 ^ m - 1] (re1, im1, int (brev m (Suc i0))) = Some r"
    by blast
  show ?case
    unfolding up bit_reversal.simps sw sh using jk ih by (simp add: Let_def) (metis prod_cases3)
qed

lemma fft_total:
  assumes len: "length re = 2 ^ m" and m: "m \<le> 29"
  shows "\<exists>r. fft re imOpt = Some (Inr r)"
proof -
  define im where "im = (case imOpt of None \<Rightarrow> zeros (length re) | Some a \<Rightarrow> a)"
  have m30: "m \<le> 30" using m by simp
  have n: "int (length re) = 2 ^ m" using len by simp
  have n1: "nat ((2::int) ^ m - 1) = 2 ^ m - 1"
    by (simp add: nat_diff_distrib' nat_power_eq)
  from bit_reversal_returns[OF m30, of 0 re im]
  obtain re1 im1 j where br: "bit_reversal (2 ^ m) [0..<2 ^ m - 1] (re, im, 0) = Some (re1, im1, j)"
    by (cases m) (auto simp: brev_0)
  from fft_stages_total[OF m, of 1 "(re1, im1)"]
  obtain s' where stg: "fft_stages (2 ^ m) 2 (re1, im1) = Some s'" by auto
  show ?thesis
    unfolding fft_def n Let_def im_def[symmetric]
    using br stg by (simp add: pow2_check[OF m30] n1)
qed

lemma ifft_total:
  assumes len: "length re = 2 ^ m" and m: "m \<le> 29"
  shows "\<exists>r. ifft re im = Some (Inr r)"
proof -
  from fft_total[OF len m, of "Some (fold (\<lambda>i a. st a i (- rd im i)) [0..<length re] (zeros (length re)))"]
  obtain r where "fft re (Some (fold (\<lambda>i a. st a i (- rd im i)) [0..<length re] (zeros (length re)))) = Some (Inr r)"
    by auto
  then show ?thesis unfolding ifft_def Let_def by (simp add: bind_res_def case_prod_unfold)
qed

lemma fft_not_pow2:
  assumes "length re < 2 ^ 31" "length re \<noteq> 0" "\<forall>k. length re \<noteq> 2 ^ k"
  shows "fft re imOpt = Some (Inl FftSizeNotPowerOfTwo)"
  using js_and_pred[OF assms(1)] assms(2,3) by (simp add: fft_def Let_def)

text \<open>
  C2, amended. For every real signal \<open>xs\<close> of length \<open>2 ^ m\<close> with \<open>m \<le> 29\<close>,
  \<open>fft\<close> returns, and \<open>ifft\<close> of what it returns is the signal again, with
  imaginary part 0: exactly, on idealised samples.
\<close>

theorem fft_ifft_round_trip:
  assumes "length xs = 2 ^ m" "m \<le> 29"
  shows "\<exists>re im. fft (map Fin xs) None = Some (Inr (re, im))
           \<and> ifft re im = Some (Inr (map Fin xs, map (\<lambda>_. Fin 0) xs))"
proof -
  let ?c = "map complex_of_real xs"
  have len: "length ?c = 2 ^ m" using assms by simp
  have ne: "?c \<noteq> []" using len by (metis list.size(3) power_not_zero zero_neq_numeral)
  have f: "fft (map Fin xs) None = Some (Inr (re_of (DFT ?c), im_of (DFT ?c)))"
    using fft_cx[OF len assms(2)] by (simp add: fft_None real_signal)
  have l2: "length (DFT ?c) = 2 ^ m" using len by simp
  have "ifft (re_of (DFT ?c)) (im_of (DFT ?c)) = Some (Inr (re_of ?c, im_of ?c))"
    using ifft_cx[OF l2 assms(2)] idft_dft[OF ne] by simp
  then have "ifft (re_of (DFT ?c)) (im_of (DFT ?c)) = Some (Inr (map Fin xs, map (\<lambda>_. Fin 0) xs))"
    by (simp add: real_signal)
  with f show ?thesis by blast
qed

theorem fft_ifft_round_trip_witness:
  "length [1, 2 :: real] = 2 ^ 1 \<and> (1::nat) \<le> 29 \<and>
   (\<exists>re im. fft (map Fin [1, 2]) None = Some (Inr (re, im))
           \<and> ifft re im = Some (Inr (map Fin [1, 2], map (\<lambda>_. Fin 0) [1, 2 :: real])))"
  using fft_ifft_round_trip[of "[1, 2]" 1] by simp

subsection \<open>fft on \<open>2 ^ 30\<close> samples\<close>

lemma fft_blocks_diverges:
  assumes "fft_blocks n len i s = Some r"
  shows "len \<le> 0 \<longrightarrow> \<not> i < n"
proof (rule fft_blocks.raw_induct[where P = "\<lambda>n len i s y. len \<le> 0 \<longrightarrow> \<not> i < n", OF _ assms])
  fix f :: "int \<Rightarrow> int \<Rightarrow> int \<Rightarrow> sample list \<times> sample list \<Rightarrow> (sample list \<times> sample list) option"
  fix n len i :: int and s y :: "sample list \<times> sample list"
  assume ih: "\<And>n len i s y. f n len i s = Some y \<Longrightarrow> len \<le> 0 \<longrightarrow> \<not> i < n"
    and st: "(if i < n then f n len (i + len) (fft_block len i s) else Some s) = Some y"
  show "len \<le> 0 \<longrightarrow> \<not> i < n"
  proof (intro impI notI)
    assume len: "len \<le> 0" and i: "i < n"
    with st have "f n len (i + len) (fft_block len i s) = Some y" by simp
    from ih[OF this] len have "\<not> i + len < n" by simp
    with len i show False by simp
  qed
qed

lemma js_shl1_wrap: "js_shl1 (2 ^ 30) = - (2 ^ 31)"
  by (simp add: js_shl1_def)

lemma fft_stages_diverges:
  "1 \<le> s \<Longrightarrow> s \<le> 30 \<Longrightarrow> fft_stages (2 ^ 30) (2 ^ s) st0 = None"
proof (induction "30 - s" arbitrary: s st0)
  case 0
  then have s: "s = 30" by simp
  have i1: "(2::int) ^ 30 = int (1 * 2 ^ 30)" by simp
  have i3: "(0::int) = int (0 * 2 ^ 30)" by simp
  from fft_blocks_total[of "2 ^ 30" 0 1 st0]
  obtain s1 where blocks: "fft_blocks (2 ^ 30) (2 ^ 30) 0 st0 = Some s1"
    unfolding i1[symmetric] i3[symmetric] by auto
  have "fft_blocks (2 ^ 30) (- (2 ^ 31)) 0 s1 = None"
  proof (cases "fft_blocks (2 ^ 30) (- (2 ^ 31)) 0 s1")
    case None then show ?thesis .
  next
    case (Some r)
    from fft_blocks_diverges[OF this] show ?thesis by simp
  qed
  then have "fft_stages (2 ^ 30) (- (2 ^ 31)) s1 = None"
    by (subst fft_stages.simps) simp
  then show ?case
    unfolding s using blocks js_shl1_wrap by (subst fft_stages.simps) simp
next
  case (Suc d)
  then have s: "s \<le> 29" by simp
  have le: "(2::int) ^ s \<le> 2 ^ 30" using s by (intro power_increasing) auto
  have "(2::int) ^ s < 2 ^ 30" using s by (intro power_strict_increasing) auto
  then have sh: "js_shl1 (2 ^ s) = 2 ^ Suc s" by (simp add: js_shl1_eq)
  have qm: "(2::nat) ^ (30 - s) * 2 ^ s = 2 ^ 30" using s by (simp add: power_add[symmetric])
  have i1: "(2::int) ^ 30 = int (2 ^ (30 - s) * 2 ^ s)" unfolding qm by simp
  have i2: "(2::int) ^ s = int (2 ^ s)" by simp
  have i3: "(0::int) = int (0 * 2 ^ s)" by simp
  from fft_blocks_total[of "2 ^ s" 0 "2 ^ (30 - s)" st0]
  obtain s1 where blocks: "fft_blocks (2 ^ 30) (2 ^ s) 0 st0 = Some s1"
    unfolding i1[symmetric] i2[symmetric] i3[symmetric] by auto
  have d: "d = 30 - Suc s" using Suc.hyps(2) by simp
  from Suc.hyps(1)[OF d, of s1] Suc.prems s
  have ih: "fft_stages (2 ^ 30) (2 ^ Suc s) s1 = None" by auto
  show ?case
    by (subst fft_stages.simps) (simp only: le if_True blocks sh ih Option.bind.simps)
qed

lemma fft_diverges:
  assumes len: "length re = 2 ^ 30"
    and im: "case imOpt of None \<Rightarrow> True | Some im \<Rightarrow> length im = 2 ^ 30"
  shows "fft re imOpt = None"
proof -
  define im where "im = (case imOpt of None \<Rightarrow> zeros (length re) | Some a \<Rightarrow> a)"
  have lim: "length im = 2 ^ 30" using im len by (simp add: im_def split: option.splits)
  have n: "int (length re) = 2 ^ 30" using len by simp
  have n1: "nat ((2::int) ^ 30 - 1) = 2 ^ 30 - 1" by simp
  from bit_reversal_run[of re 30 im 0] len lim
  obtain re1 im1 j where br: "bit_reversal (2 ^ 30) [0..<2 ^ 30 - 1] (re, im, 0) = Some (re1, im1, j)"
    by (auto simp: brev_upto_0)
  have stg: "fft_stages (2 ^ 30) (2 ^ 1) (re1, im1) = None"
    by (rule fft_stages_diverges) simp_all
  have chk: "js_and (2 ^ 30) (2 ^ 30 - 1) = 0" by (rule pow2_check) simp
  show ?thesis
    unfolding fft_def n Let_def im_def[symmetric]
    using br stg chk n1 by (simp del: upt_conv_Cons)
qed

text \<open>
  C2, as stated, holds for every power-of-two length. On a signal of \<open>2 ^ 30\<close> samples
  \<open>fft\<close> never returns (the block length wraps to \<open>- 2 ^ 31\<close> at \<^verbatim>\<open>len <<= 1\<close>), so
  there is no transform for \<open>ifft\<close> to invert.
\<close>

theorem fft_never_returns_at_2_30:
  "length (replicate (2 ^ 30) (Fin 0)) = 2 ^ 30
   \<and> \<not> (\<exists>re im. fft (replicate (2 ^ 30) (Fin 0)) None = Some (Inr (re, im))
           \<and> ifft re im = Some (Inr (replicate (2 ^ 30) (Fin 0), replicate (2 ^ 30) (Fin 0))))"
proof -
  have "fft (replicate (2 ^ 30) (Fin 0)) None = None"
    by (rule fft_diverges) simp_all
  then show ?thesis by simp
qed


subsection \<open>The errors of fft\<close>

lemma fft_error: "fft re imOpt = Some (Inl e) \<Longrightarrow> e = FftSizeNotPowerOfTwo"
  by (auto simp: fft_def Let_def split: if_splits Option.bind_splits prod.splits)

lemma ifft_error: "ifft re im = Some (Inl e) \<Longrightarrow> e = FftSizeNotPowerOfTwo"
  by (auto simp: ifft_def Let_def bind_res_def dest: fft_error
           split: option.splits sum.splits prod.splits)

lemma ifft_not_pow2:
  assumes "length re < 2 ^ 31" "length re \<noteq> 0" "\<forall>k. length re \<noteq> 2 ^ k"
  shows "ifft re im = Some (Inl FftSizeNotPowerOfTwo)"
  unfolding ifft_def Let_def using fft_not_pow2[OF assms] by (simp add: bind_res_def)

lemma foldM_total:
  assumes "\<And>x s. x \<in> set xs \<Longrightarrow> \<exists>s'. f x s = Some (Inr s')"
  shows "\<exists>s'. foldM f xs s = Some (Inr s')"
  using assms
proof (induction xs arbitrary: s)
  case Nil
  then show ?case by simp
next
  case (Cons x xs)
  from Cons.prems[of x s] obtain s1 where "f x s = Some (Inr s1)" by auto
  moreover from Cons.IH[of s1] Cons.prems obtain s' where "foldM f xs s1 = Some (Inr s')" by auto
  ultimately show ?case by (simp add: bind_res_def)
qed

lemma foldM_error:
  "foldM f xs s = Some (Inl e) \<Longrightarrow> \<exists>x s'. x \<in> set xs \<and> f x s' = Some (Inl e)"
proof (induction xs arbitrary: s)
  case Nil
  then show ?case by simp
next
  case (Cons x xs)
  show ?case
  proof (cases "f x s")
    case None
    with Cons.prems show ?thesis by (simp add: bind_res_def)
  next
    case (Some r)
    show ?thesis
    proof (cases r)
      case (Inl e')
      with Some Cons.prems have "f x s = Some (Inl e)" by (simp add: bind_res_def)
      then show ?thesis by auto
    next
      case (Inr s1)
      with Some Cons.prems have "foldM f xs s1 = Some (Inl e)" by (simp add: bind_res_def)
      from Cons.IH[OF this] show ?thesis by auto
    qed
  qed
qed

text \<open>
  C8, as stated, has \<open>fft\<close> fail on every length that is no power of two, 0 included,
  and succeed on every power of two. The check \<^verbatim>\<open>(n & (n - 1)) !== 0\<close> lets the length
  0 pass, and \<open>fft\<close> returns two empty buffers. On a buffer of \<open>2 ^ 30\<close> samples the
  check passes too, but \<^verbatim>\<open>len <<= 1\<close> takes the block length from \<open>2 ^ 30\<close> to
  \<open>- 2 ^ 31\<close> in 32 bits, the stage loop goes on with a negative step, and the call
  never returns.
\<close>

theorem fft_check_at_0_and_2_30:
  "fft [] None = Some (Inr ([], []))
   \<and> length (replicate (2 ^ 30) (Fin 1)) = 2 ^ 30
   \<and> fft (replicate (2 ^ 30) (Fin 1)) None = None"
proof -
  have a: "fft [] None = Some (Inr ([], []))"
    by (simp add: fft_def js_and_def zeros_def) (subst fft_stages.simps, simp)
  have "fft (replicate (2 ^ 30) (Fin 1)) None = None"
    by (rule fft_diverges) simp_all
  with a show ?thesis by simp
qed

text \<open>
  C8, amended. For every buffer of a length \<open>n\<close> with \<open>1 \<le> n < 2 ^ 31\<close>, \<open>fft\<close>
  raises its size error exactly when \<open>n\<close> is no power of two, and it raises no other
  error; for every power of two up to \<open>2 ^ 29\<close> it returns, whatever imaginary input
  is given.
\<close>

theorem fft_size_error_iff:
  assumes "length re \<noteq> 0" "length re < 2 ^ 31"
  shows "(fft re imOpt = Some (Inl FftSizeNotPowerOfTwo) \<longleftrightarrow> \<not> (\<exists>k. length re = 2 ^ k))
       \<and> (\<forall>e. fft re imOpt = Some (Inl e) \<longrightarrow> e = FftSizeNotPowerOfTwo)
       \<and> ((\<exists>k\<le>29. length re = 2 ^ k) \<longrightarrow> (\<exists>r. fft re imOpt = Some (Inr r)))"
proof -
  have a: "fft re imOpt = Some (Inl FftSizeNotPowerOfTwo)" if "\<not> (\<exists>k. length re = 2 ^ k)"
    using fft_not_pow2[OF assms(2,1)] that by simp
  have b: "fft re imOpt \<noteq> Some (Inl e)" if "length re = 2 ^ k" for k e
  proof -
    have "js_and (int (length re)) (int (length re) - 1) = 0"
      using js_and_pred[OF assms(2)] that by auto
    then show ?thesis
      by (auto simp: fft_def Let_def split: Option.bind_splits prod.splits)
  qed
  have c: "\<exists>r. fft re imOpt = Some (Inr r)" if "length re = 2 ^ k" "k \<le> 29" for k
    using fft_total[OF that(1,2), of imOpt] .
  show ?thesis using a b c fft_error by blast
qed

theorem fft_size_error_iff_witness:
  "fft (replicate 3 (Fin 1)) None = Some (Inl FftSizeNotPowerOfTwo)
   \<and> (\<exists>r. fft (replicate 4 (Fin 1)) (Some [Fin 1]) = Some (Inr r))"
proof -
  have "\<not> (\<exists>k. (3::nat) = 2 ^ k)"
  proof
    assume "\<exists>k. (3::nat) = 2 ^ k"
    then obtain k where k: "(3::nat) = 2 ^ k" by blast
    show False
    proof (cases k)
      case 0 with k show ?thesis by simp
    next
      case (Suc k')
      with k have "(3::nat) = 2 * 2 ^ k'" by simp
      then have "even (3::nat)" by (metis dvd_triv_left)
      then show ?thesis by simp
    qed
  qed
  then have a: "fft (replicate 3 (Fin 1)) None = Some (Inl FftSizeNotPowerOfTwo)"
    using fft_size_error_iff[of "replicate 3 (Fin 1)" None] by simp
  have "\<exists>k\<le>29. (4::nat) = 2 ^ k" by (rule exI[of _ 2]) simp
  then have "\<exists>r. fft (replicate 4 (Fin 1)) (Some [Fin 1]) = Some (Inr r)"
    using fft_size_error_iff[of "replicate 4 (Fin 1)" "Some [Fin 1]"] by simp
  with a show ?thesis by blast
qed

subsection \<open>The errors of istft\<close>

lemma length_fst_fold_st:
  "length (fst (fold (\<lambda>x p. (st (fst p) (i x) (a x p), G x p)) xs p0)) = length (fst p0)"
  by (induction xs arbitrary: p0) simp_all

lemma istft_frame_error:
  "istft_frame z freqs numFrames nFft hopLength window norm_f center outputLength bf s = Some (Inl e)
   \<Longrightarrow> e = FftSizeNotPowerOfTwo"
  by (auto simp: istft_frame_def case_prod_unfold Let_def bind_res_def dest: ifft_error
           split: option.splits sum.splits)

lemma istft_frame_total:
  assumes "nFft = 2 ^ m" "m \<le> 29"
  shows "\<exists>s'. istft_frame z freqs numFrames nFft hopLength window norm_f center outputLength bf s
              = Some (Inr s')"
proof -
  define full where "full =
      fold (\<lambda>freq p. (st (fst p) freq (rd (fst p) (nFft - freq)),
                          st (snd p) freq (- rd (snd p) (nFft - freq))))
        [freqs..<nFft]
        (fold (\<lambda>freq p. (st (fst p) freq (rd (data (real_t z))
                                      (fst bf * freqs * numFrames + freq * numFrames + snd bf)),
                             st (snd p) freq (rd (data (imag_t z))
                                      (fst bf * freqs * numFrames + freq * numFrames + snd bf))))
           [0..<freqs] (zeros nFft, zeros nFft))"
  have len: "length (fst full) = nFft"
    unfolding full_def by (simp add: length_fst_fold_st)
  obtain r where "ifft (fst full) (snd full) = Some (Inr r)"
    using ifft_total[of "fst full" m "snd full"] len assms by auto
  then show ?thesis
    unfolding istft_frame_def case_prod_unfold Let_def prod.collapse full_def[symmetric]
    by (simp add: bind_res_def)
qed

lemma istft_frame_not_pow2:
  assumes "nFft < 2 ^ 31" "nFft \<noteq> 0" "\<forall>k. nFft \<noteq> 2 ^ k"
  shows "istft_frame z freqs numFrames nFft hopLength window norm_f center outputLength bf s
              = Some (Inl FftSizeNotPowerOfTwo)"
proof -
  define full where "full =
      fold (\<lambda>freq p. (st (fst p) freq (rd (fst p) (nFft - freq)),
                          st (snd p) freq (- rd (snd p) (nFft - freq))))
        [freqs..<nFft]
        (fold (\<lambda>freq p. (st (fst p) freq (rd (data (real_t z))
                                      (fst bf * freqs * numFrames + freq * numFrames + snd bf)),
                             st (snd p) freq (rd (data (imag_t z))
                                      (fst bf * freqs * numFrames + freq * numFrames + snd bf))))
           [0..<freqs] (zeros nFft, zeros nFft))"
  have len: "length (fst full) = nFft"
    unfolding full_def by (simp add: length_fst_fold_st)
  have "ifft (fst full) (snd full) = Some (Inl FftSizeNotPowerOfTwo)"
    using ifft_not_pow2[of "fst full" "snd full"] len assms by simp
  then show ?thesis
    unfolding istft_frame_def case_prod_unfold Let_def prod.collapse full_def[symmetric]
    by (simp add: bind_res_def)
qed

lemma not_pow2_6: "\<forall>k. (6::nat) \<noteq> 2 ^ k"
proof (intro allI notI)
  fix k assume k: "(6::nat) = 2 ^ k"
  have "k < 3"
  proof (rule ccontr)
    assume "\<not> k < 3"
    then have "(2::nat) ^ 3 \<le> 2 ^ k" by (intro power_increasing) auto
    with k show False by simp
  qed
  then consider "k = 0" | "k = 1" | "k = 2" by linarith
  then show False using k by cases simp_all
qed

text \<open>
  C9, as stated, lets \<open>istft\<close> raise no error when \<open>2 * freqBins - 2 = nFft\<close>. With 4
  frequency bins, \<open>nFft = 6\<close> and one frame the precondition holds, and the inverse
  transform of the first frame raises the size error of \<open>fft\<close>: 6 is no power of two.
\<close>

theorem istft_size_error_under_precondition:
  "2 * int 4 - 2 = int 6
   \<and> istft \<lparr>real_t = \<lparr>data = zeros 4, shape = [1, 4, 1]\<rparr>,
             imag_t = \<lparr>data = zeros 4, shape = [1, 4, 1]\<rparr>\<rparr>
        6 1 (replicate 6 (Fin 1)) True None False
       = Some (Inl FftSizeNotPowerOfTwo)"
  by (simp add: istft_def alloc_def bind_res_def istft_frame_not_pow2 not_pow2_6)

text \<open>
  C9, amended. For every complex input of shape \<open>[batch, freqBins, frames]\<close> and every
  \<open>nFft\<close>, \<open>istft\<close> raises its shape error exactly when \<open>2 * freqBins - 2 \<noteq> nFft\<close>.
  When the precondition holds, \<open>nFft\<close> is a power of two up to \<open>2 ^ 29\<close>, there is at
  least one frame and no target length is given, it raises no error and returns a
  tensor.
\<close>

theorem istft_shape_error_iff:
  assumes "shape (real_t z) = [batch, freqs, numFrames]"
  shows "(istft z nFft hopLength window normalized length0 center = Some (Inl IstftFreqsMismatch)
            \<longleftrightarrow> 2 * int freqs - 2 \<noteq> int nFft)
       \<and> (2 * int freqs - 2 = int nFft \<and> (\<exists>m\<le>29. nFft = 2 ^ m) \<and> 1 \<le> numFrames
          \<longrightarrow> (\<exists>t. istft z nFft hopLength window normalized None center = Some (Inr t)))"
proof -
  define norm_f where "norm_f = (if normalized then sqrt (real nFft) else 1)"
  have a1: "istft z nFft hopLength window normalized length0 center = Some (Inl IstftFreqsMismatch)"
    if "2 * int freqs - 2 \<noteq> int nFft"
    unfolding istft_def assms using that by simp
  have a2: "istft z nFft hopLength window normalized length0 center \<noteq> Some (Inl IstftFreqsMismatch)"
    if pre: "2 * int freqs - 2 = int nFft"
  proof
    assume bad: "istft z nFft hopLength window normalized length0 center = Some (Inl IstftFreqsMismatch)"
    have "foldM (istft_frame z freqs numFrames nFft hopLength window norm_f center outLen) xs s
            \<noteq> Some (Inl IstftFreqsMismatch)" for s xs outLen
    proof
      assume "foldM (istft_frame z freqs numFrames nFft hopLength window norm_f center outLen) xs s
                = Some (Inl IstftFreqsMismatch)"
      from foldM_error[OF this] istft_frame_error
      show False by fastforce
    qed
    then show False using bad pre unfolding istft_def assms norm_f_def[symmetric]
      by (auto simp: bind_res_def alloc_def Let_def split: if_splits option.splits sum.splits prod.splits)
  qed
  have b: "\<exists>t. istft z nFft hopLength window normalized None center = Some (Inr t)"
    if pre: "2 * int freqs - 2 = int nFft" and m: "nFft = 2 ^ m" "m \<le> 29" and fr: "1 \<le> numFrames" for m
  proof -
    define outLen where "outLen = int nFft + (int numFrames - 1) * int hopLength
                   - (if center then int nFft else 0)"
    have len: "0 \<le> outLen" using fr by (simp add: outLen_def)
    define frames where
      "frames = foldM (istft_frame z freqs numFrames nFft hopLength window norm_f center outLen)
                (List.product [0..<batch] [0..<numFrames])"
    have unfold: "istft z nFft hopLength window normalized None center =
      (if outLen < 0 \<and> batch = 0 then Some (Inl NotModelled)
       else bind_res (Some (alloc (int batch * outLen))) (\<lambda>output0.
            bind_res (Some (alloc (int batch * outLen))) (\<lambda>windowSum0.
            bind_res (frames (output0, windowSum0))
              (\<lambda>(output1, windowSum).
                 Some (Inr \<lparr>data = fold (\<lambda>i out.
                                              if sample_gt (rd windowSum i) (Fin (1 / 10 ^ 8))
                                              then st out i (rd out i / rd windowSum i)
                                              else out)
                                        [0..<length output1] output1,
                           shape = [batch, nat outLen]\<rparr>)))))"
      unfolding istft_def assms frames_def norm_f_def outLen_def using pre
      by (simp add: Let_def)
    have "\<exists>s'. frames s = Some (Inr s')" for s
      unfolding frames_def using istft_frame_total[OF m] by (intro foldM_total) blast
    then obtain s' where "frames (zeros (nat (int batch * outLen)), zeros (nat (int batch * outLen))) = Some (Inr s')"
      by blast
    moreover have "\<not> int batch * outLen < 0" using len by (simp add: not_less)
    ultimately show ?thesis
      unfolding unfold using len
      by (simp add: bind_res_def alloc_def case_prod_unfold)
  qed
  show ?thesis using a1 a2 b by blast
qed

theorem istft_shape_error_iff_witness:
  "istft \<lparr>real_t = \<lparr>data = zeros 4, shape = [1, 4, 1]\<rparr>,
           imag_t = \<lparr>data = zeros 4, shape = [1, 4, 1]\<rparr>\<rparr>
        4 1 (replicate 4 (Fin 1)) True None False
       = Some (Inl IstftFreqsMismatch)
   \<and> (\<exists>t. istft \<lparr>real_t = \<lparr>data = zeros 3, shape = [1, 3, 1]\<rparr>,
                   imag_t = \<lparr>data = zeros 3, shape = [1, 3, 1]\<rparr>\<rparr>
              4 1 (replicate 4 (Fin 1)) True None True = Some (Inr t))"
proof -
  let ?z4 = "\<lparr>real_t = \<lparr>data = zeros 4, shape = [1, 4, 1]\<rparr>,
             imag_t = \<lparr>data = zeros 4, shape = [1, 4, 1]\<rparr>\<rparr>"
  let ?z3 = "\<lparr>real_t = \<lparr>data = zeros 3, shape = [1, 3, 1]\<rparr>,
             imag_t = \<lparr>data = zeros 3, shape = [1, 3, 1]\<rparr>\<rparr>"
  have a: "istft ?z4 4 1 (replicate 4 (Fin 1)) True None False = Some (Inl IstftFreqsMismatch)"
    using istft_shape_error_iff[of ?z4 1 4 1 4 1 "replicate 4 (Fin 1)" True None False] by simp
  have "\<exists>m\<le>29. (4::nat) = 2 ^ m" by (rule exI[of _ 2]) simp
  then have "\<exists>t. istft ?z3 4 1 (replicate 4 (Fin 1)) True None True = Some (Inr t)"
    using istft_shape_error_iff[of ?z3 1 3 1 4 1 "replicate 4 (Fin 1)" True None True] by simp
  with a show ?thesis by blast
qed


text \<open>
  A target length is not part of the amended statement. When one is given and the
  frames are centred, \<open>istft\<close> takes \<open>nFft\<close> off it: asked for 2 samples from one
  frame of \<open>nFft = 4\<close>, it tries to allocate \<open>- 2\<close> samples.
\<close>

lemma istft_given_length_below_nFft:
  "istft \<lparr>real_t = \<lparr>data = zeros 3, shape = [1, 3, 1]\<rparr>,
           imag_t = \<lparr>data = zeros 3, shape = [1, 3, 1]\<rparr>\<rparr>
        4 1 (replicate 4 (Fin 1)) True (Some 2) True
       = Some (Inl InvalidTypedArrayLength)"
  by (simp add: istft_def alloc_def bind_res_def)


section \<open>The channel interleaving of magnitude and mask\<close>

lemma fold_st_g:
  assumes "\<And>x. x \<in> set xs \<Longrightarrow> v x = g (i x)"
  shows "k < length a \<Longrightarrow>
         fold (\<lambda>x a. st a (i x) (v x)) xs a ! k = (if k \<in> i ` set xs then g k else a ! k)"
  using assms
proof (induction xs arbitrary: a)
  case Nil
  then show ?case by simp
next
  case (Cons x xs)
  have "fold (\<lambda>x a. st a (i x) (v x)) (x # xs) a ! k
      = (if k \<in> i ` set xs then g k else st a (i x) (v x) ! k)"
    using Cons.IH[of "st a (i x) (v x)"] Cons.prems by simp
  also have "\<dots> = (if k \<in> i ` set (x # xs) then g k else a ! k)"
    using Cons.prems(1) Cons.prems(2)[of x] by (auto simp: st_def nth_list_update)
  finally show ?case .
qed

lemma fold_st2_g:
  assumes "\<And>x. x \<in> set xs \<Longrightarrow> v1 x = g (i1 x)" "\<And>x. x \<in> set xs \<Longrightarrow> v2 x = g (i2 x)"
  shows "k < length a \<Longrightarrow>
         fold (\<lambda>x a. st (st a (i1 x) (v1 x)) (i2 x) (v2 x)) xs a ! k
           = (if k \<in> i1 ` set xs \<union> i2 ` set xs then g k else a ! k)"
  using assms
proof (induction xs arbitrary: a)
  case Nil
  then show ?case by simp
next
  case (Cons x xs)
  have "fold (\<lambda>x a. st (st a (i1 x) (v1 x)) (i2 x) (v2 x)) (x # xs) a ! k
      = (if k \<in> i1 ` set xs \<union> i2 ` set xs then g k else st (st a (i1 x) (v1 x)) (i2 x) (v2 x) ! k)"
    using Cons.IH[of "st (st a (i1 x) (v1 x)) (i2 x) (v2 x)"] Cons.prems by simp
  also have "st (st a (i1 x) (v1 x)) (i2 x) (v2 x) ! k
      = (if k = i2 x then g k else if k = i1 x then g k else a ! k)"
    using Cons.prems(1) Cons.prems(2)[of x] Cons.prems(3)[of x]
    by (simp add: st_def nth_list_update)
  also have "(if k \<in> i1 ` set xs \<union> i2 ` set xs then g k
              else (if k = i2 x then g k else if k = i1 x then g k else a ! k))
      = (if k \<in> i1 ` set (x # xs) \<union> i2 ` set (x # xs) then g k else a ! k)"
    by auto
  finally show ?case .
qed

lemma row_index_less:
  fixes fr t Fr T :: nat
  assumes "fr < Fr" "t < T"
  shows "fr * T + t < Fr * T"
proof -
  have "fr * T + t < Suc fr * T" using assms(2) by simp
  also have "\<dots> \<le> Fr * T" using assms(1) by (intro mult_le_mono1) simp
  finally show ?thesis .
qed


definition interleaved :: "nat \<Rightarrow> sample list \<Rightarrow> sample list \<Rightarrow> nat \<Rightarrow> sample" where
  "interleaved R re im k =
     (if even (k div R) then re ! ((k div R) div 2 * R + k mod R)
      else im ! ((k div R) div 2 * R + k mod R))"

lemma magnitude_nth:
  assumes sh: "shape (real_t z) = [B, C, Fr, T]"
    and lre: "length (data (real_t z)) = B * C * Fr * T"
    and lim: "length (data (imag_t z)) = B * C * Fr * T"
  shows "\<exists>out. magnitude z = Inr \<lparr>data = out, shape = [B, C * 2, Fr, T]\<rparr>
           \<and> length out = B * C * 2 * Fr * T
           \<and> (\<forall>k<B * C * 2 * Fr * T.
                 out ! k = interleaved (Fr * T) (data (real_t z)) (data (imag_t z)) k)"
proof -
  define re where "re = data (real_t z)"
  define im where "im = data (imag_t z)"
  define R where "R = Fr * T"
  define P where "P = List.product [0..<B] (List.product [0..<C] (List.product [0..<Fr] [0..<T]))"
  define src :: "nat \<times> nat \<times> nat \<times> nat \<Rightarrow> nat" where
    "src x = fst x * C * Fr * T + fst (snd x) * Fr * T + fst (snd (snd x)) * T + snd (snd (snd x))" for x
  define iR :: "nat \<times> nat \<times> nat \<times> nat \<Rightarrow> nat" where
    "iR x = fst x * (C * 2) * Fr * T + fst (snd x) * 2 * Fr * T + fst (snd (snd x)) * T + snd (snd (snd x))" for x
  define iI :: "nat \<times> nat \<times> nat \<times> nat \<Rightarrow> nat" where
    "iI x = fst x * (C * 2) * Fr * T + (fst (snd x) * 2 + 1) * Fr * T + fst (snd (snd x)) * T + snd (snd (snd x))" for x
  define out where
    "out = fold (\<lambda>x a. st (st a (iR x) (rd re (src x))) (iI x) (rd im (src x))) P (zeros (B * C * 2 * Fr * T))"
  have mag: "magnitude z = Inr \<lparr>data = out, shape = [B, C * 2, Fr, T]\<rparr>"
    unfolding magnitude_def sh out_def P_def src_def iR_def iI_def re_def im_def
    by (simp add: Let_def case_prod_unfold)
  have len: "length out = B * C * 2 * Fr * T"
    unfolding out_def by (simp add: length_fold_preserve)
  have inP: "x \<in> set P \<longleftrightarrow> fst x < B \<and> fst (snd x) < C \<and> fst (snd (snd x)) < Fr \<and> snd (snd (snd x)) < T" for x
    unfolding P_def by (cases x) auto
  have facts: "src x = (fst x * C + fst (snd x)) * R + (fst (snd (snd x)) * T + snd (snd (snd x)))"
      "iR x = (2 * (fst x * C + fst (snd x))) * R + (fst (snd (snd x)) * T + snd (snd (snd x)))"
      "iI x = Suc (2 * (fst x * C + fst (snd x))) * R + (fst (snd (snd x)) * T + snd (snd (snd x)))" for x
    unfolding src_def iR_def iI_def R_def by (simp_all add: algebra_simps)
  have val: "rd re (src x) = interleaved R re im (iR x) \<and> rd im (src x) = interleaved R re im (iI x)"
    if "x \<in> set P" for x
  proof -
    define q where "q = fst x * C + fst (snd x)"
    define \<rho> where "\<rho> = fst (snd (snd x)) * T + snd (snd (snd x))"
    from that have x: "fst x < B" "fst (snd x) < C" "fst (snd (snd x)) < Fr" "snd (snd (snd x)) < T"
      by (simp_all add: inP)
    have \<rho>: "\<rho> < R" unfolding \<rho>_def R_def by (rule row_index_less[OF x(3,4)])
    have q: "q < B * C" unfolding q_def by (rule row_index_less[OF x(1,2)])
    have "q * R + \<rho> < Suc q * R" using \<rho> by simp
    also have "\<dots> \<le> (B * C) * R" using q by (intro mult_le_mono1) simp
    finally have s: "src x < length re" "src x < length im"
      unfolding facts q_def[symmetric] \<rho>_def[symmetric] using lre lim
      by (simp_all add: re_def im_def R_def mult.assoc)
    have e: "even (2 * q)" "(2 * q) div 2 = q" "\<not> even (Suc (2 * q))" "Suc (2 * q) div 2 = q" by simp_all
    show ?thesis
      unfolding interleaved_def facts q_def[symmetric] \<rho>_def[symmetric] div_mod_block[OF \<rho>]
      using s e unfolding facts q_def[symmetric] \<rho>_def[symmetric]
      by (simp add: rd_def)
  qed
  have hit: "k \<in> iR ` set P \<union> iI ` set P" if k: "k < B * C * 2 * Fr * T" for k
  proof -
    have kR: "k < (2 * (B * C)) * R" using k by (simp add: R_def algebra_simps)
    then have R0: "0 < R" by (cases R) auto
    then have T0: "0 < T" and Fr0: "0 < Fr" by (simp_all add: R_def)
    have BC0: "0 < B * C" using kR by (cases "B * C") auto
    then have C0: "0 < C" by simp
    define row where "row = k div R"
    define \<rho> where "\<rho> = k mod R"
    define q where "q = row div 2"
    define x where "x = (q div C, q mod C, \<rho> div T, \<rho> mod T)"
    have row: "row < 2 * (B * C)" unfolding row_def using kR R0 by (simp add: less_mult_imp_div_less)
    then have q: "q < B * C" unfolding q_def by simp
    have \<rho>: "\<rho> < Fr * T" unfolding \<rho>_def using R0 by (simp add: R_def)
    have xP: "x \<in> set P"
      unfolding inP x_def using q \<rho> C0 T0
      by (simp add: less_mult_imp_div_less)
    have qq: "fst x * C + fst (snd x) = q" unfolding x_def by simp
    have rr: "fst (snd (snd x)) * T + snd (snd (snd x)) = \<rho>" unfolding x_def by simp
    have kk: "k = row * R + \<rho>" unfolding row_def \<rho>_def by simp
    show ?thesis
    proof (cases "even row")
      case True
      then have "row = 2 * q" unfolding q_def by simp
      then have "iR x = k" unfolding facts qq rr kk by simp
      with xP show ?thesis by blast
    next
      case False
      then have "row = Suc (2 * q)" unfolding q_def by (simp add: odd_two_times_div_two_succ)
      then have "iI x = k" unfolding facts qq rr kk by simp
      with xP show ?thesis by blast
    qed
  qed
  have nth: "out ! k = interleaved R re im k" if k: "k < B * C * 2 * Fr * T" for k
  proof -
    have "out ! k = (if k \<in> iR ` set P \<union> iI ` set P then interleaved R re im k
                     else zeros (B * C * 2 * Fr * T) ! k)"
      unfolding out_def using val k by (intro fold_st2_g) simp_all
    then show ?thesis using hit[OF k] by simp
  qed
  show ?thesis using mag len nth unfolding R_def re_def im_def by blast
qed


lemma mask_t_nth:
  assumes sh: "shape m = [B, S, 2 * Ch, Fr, T]"
    and len: "length (data m) = B * S * (2 * Ch) * Fr * T"
  shows "\<exists>ro io. mask_t m = Inr \<lparr>ureal_t = \<lparr>udata = ro, ushape = [Some B, Some S, Some Ch, Some Fr, Some T]\<rparr>,
                                uimag_t = \<lparr>udata = io, ushape = [Some B, Some S, Some Ch, Some Fr, Some T]\<rparr>\<rparr>
           \<and> length ro = B * S * Ch * Fr * T \<and> length io = B * S * Ch * Fr * T
           \<and> (\<forall>k<B * S * Ch * Fr * T.
                 ro ! k = data m ! ((2 * (k div (Fr * T))) * (Fr * T) + k mod (Fr * T))
               \<and> io ! k = data m ! (Suc (2 * (k div (Fr * T))) * (Fr * T) + k mod (Fr * T)))"
proof -
  define d where "d = data m"
  define R where "R = Fr * T"
  define n where "n = B * S * Ch * Fr * T"
  define P where "P = List.product [0..<B] (List.product [0..<S] (List.product [0..<Ch]
                             (List.product [0..<Fr] [0..<T])))"
  define oi :: "nat \<times> nat \<times> nat \<times> nat \<times> nat \<Rightarrow> nat" where
    "oi x = fst x * S * Ch * Fr * T + fst (snd x) * Ch * Fr * T
            + fst (snd (snd x)) * Fr * T + fst (snd (snd (snd x))) * T + snd (snd (snd (snd x)))" for x
  define ri :: "nat \<times> nat \<times> nat \<times> nat \<times> nat \<Rightarrow> nat" where
    "ri x = fst x * S * (2 * Ch) * Fr * T + fst (snd x) * (2 * Ch) * Fr * T
            + fst (snd (snd x)) * 2 * Fr * T + fst (snd (snd (snd x))) * T + snd (snd (snd (snd x)))" for x
  define ii :: "nat \<times> nat \<times> nat \<times> nat \<times> nat \<Rightarrow> nat" where
    "ii x = fst x * S * (2 * Ch) * Fr * T + fst (snd x) * (2 * Ch) * Fr * T
            + (fst (snd (snd x)) * 2 + 1) * Fr * T + fst (snd (snd (snd x))) * T + snd (snd (snd (snd x)))" for x
  define ro where "ro = fold (\<lambda>x a. st a (oi x) (rd d (ri x))) P (zeros n)"
  define io where "io = fold (\<lambda>x a. st a (oi x) (rd d (ii x))) P (zeros n)"
  have msk: "mask_t m = Inr \<lparr>ureal_t = \<lparr>udata = ro, ushape = [Some B, Some S, Some Ch, Some Fr, Some T]\<rparr>,
                            uimag_t = \<lparr>udata = io, ushape = [Some B, Some S, Some Ch, Some Fr, Some T]\<rparr>\<rparr>"
    unfolding mask_t_def sh ro_def io_def P_def oi_def ri_def ii_def d_def n_def
    by (simp add: dim_def Let_def case_prod_unfold
          fold_pair[of "\<lambda>x a. st a (oi' x) (v x)" "\<lambda>x a. st a (oi' x) (w x)" for oi' v w])
  have lro: "length ro = n" "length io = n"
    unfolding ro_def io_def by (simp_all add: length_fold_preserve)
  have inP: "x \<in> set P \<longleftrightarrow> fst x < B \<and> fst (snd x) < S \<and> fst (snd (snd x)) < Ch
               \<and> fst (snd (snd (snd x))) < Fr \<and> snd (snd (snd (snd x))) < T" for x
    unfolding P_def by (cases x) auto
  have facts:
      "oi x = ((fst x * S + fst (snd x)) * Ch + fst (snd (snd x))) * R
              + (fst (snd (snd (snd x))) * T + snd (snd (snd (snd x))))"
      "ri x = (2 * ((fst x * S + fst (snd x)) * Ch + fst (snd (snd x)))) * R
              + (fst (snd (snd (snd x))) * T + snd (snd (snd (snd x))))"
      "ii x = Suc (2 * ((fst x * S + fst (snd x)) * Ch + fst (snd (snd x)))) * R
              + (fst (snd (snd (snd x))) * T + snd (snd (snd (snd x))))" for x
    unfolding oi_def ri_def ii_def R_def by (simp_all add: algebra_simps)
  define gr where "gr k = rd d ((2 * (k div R)) * R + k mod R)" for k
  define gi where "gi k = rd d (Suc (2 * (k div R)) * R + k mod R)" for k
  have val: "rd d (ri x) = gr (oi x) \<and> rd d (ii x) = gi (oi x)" if "x \<in> set P" for x
  proof -
    from that have x: "fst (snd (snd (snd x))) < Fr" "snd (snd (snd (snd x))) < T"
      by (simp_all add: inP)
    have \<rho>: "fst (snd (snd (snd x))) * T + snd (snd (snd (snd x))) < R"
      unfolding R_def by (rule row_index_less[OF x])
    show ?thesis
      unfolding gr_def gi_def facts div_mod_block[OF \<rho>] by simp
  qed
  have hit: "k \<in> oi ` set P" if k: "k < n" for k
  proof -
    have kR: "k < (B * S * Ch) * R" using k by (simp add: n_def R_def algebra_simps)
    then have R0: "0 < R" by (cases R) auto
    then have T0: "0 < T" by (simp add: R_def)
    have "0 < B * S * Ch" using kR by (cases "B * S * Ch") auto
    then have Ch0: "0 < Ch" and S0: "0 < S" by simp_all
    define q where "q = k div R"
    define \<rho> where "\<rho> = k mod R"
    define x where "x = ((q div Ch) div S, (q div Ch) mod S, q mod Ch, \<rho> div T, \<rho> mod T)"
    have q: "q < (B * S) * Ch" unfolding q_def using kR R0 by (simp add: less_mult_imp_div_less)
    then have q2: "q div Ch < B * S" using Ch0 by (simp add: less_mult_imp_div_less)
    have \<rho>: "\<rho> < Fr * T" unfolding \<rho>_def using R0 by (simp add: R_def)
    have xP: "x \<in> set P"
      unfolding inP x_def using q2 \<rho> Ch0 S0 T0
      by (simp add: less_mult_imp_div_less)
    have "oi x = q * R + \<rho>" unfolding facts x_def by simp
    then have "oi x = k" unfolding q_def \<rho>_def by simp
    with xP show ?thesis by blast
  qed
  have nth: "ro ! k = d ! ((2 * (k div R)) * R + k mod R) \<and> io ! k = d ! (Suc (2 * (k div R)) * R + k mod R)"
    if k: "k < n" for k
  proof -
    have kR: "k < (B * S * Ch) * R" using k by (simp add: n_def R_def algebra_simps)
    then have R0: "0 < R" by (cases R) auto
    have q: "k div R < B * S * Ch" using kR R0 by (simp add: less_mult_imp_div_less)
    have \<rho>: "k mod R < R" using R0 by simp
    have "Suc (2 * (k div R)) * R + k mod R < Suc (Suc (2 * (k div R))) * R" using \<rho> by simp
    also have "\<dots> \<le> (2 * (B * S * Ch)) * R" using q by (intro mult_le_mono1) simp
    finally have i2: "Suc (2 * (k div R)) * R + k mod R < length d"
      using len by (simp add: d_def R_def algebra_simps)
    have "(2 * (k div R)) * R + k mod R \<le> Suc (2 * (k div R)) * R + k mod R" by simp
    with i2 have i1: "(2 * (k div R)) * R + k mod R < length d" by linarith
    have "ro ! k = (if k \<in> oi ` set P then gr k else zeros n ! k)"
      unfolding ro_def using val k by (intro fold_st_g) simp_all
    moreover have "io ! k = (if k \<in> oi ` set P then gi k else zeros n ! k)"
      unfolding io_def using val k by (intro fold_st_g) simp_all
    ultimately show ?thesis using hit[OF k] i1 i2 by (simp add: gr_def gi_def rd_def)
  qed
  show ?thesis using msk lro nth unfolding n_def R_def d_def by blast
qed

text \<open>
  C6, as stated, composes \<open>mask\<close> with \<open>magnitude\<close> directly. \<open>magnitude\<close> reads four
  dimensions of its input and returns a tensor of four dimensions; \<open>mask\<close> reads five.
  On the complex tensor of shape \<open>[1, 1, 2, 1, 1]\<close> with real part 3, 5 and imaginary
  part 4, 6, \<open>magnitude\<close> gives the samples 3, 5, 4, 6 in shape \<open>[1, 2, 2, 1]\<close>, and
  \<open>mask\<close> of that has no fifth dimension to read: its buffers are empty, not 3, 5 and
  4, 6.
\<close>

theorem mask_of_magnitude_is_empty:
  "magnitude \<lparr>real_t = \<lparr>data = [Fin 3, Fin 5], shape = [1, 1, 2, 1, 1]\<rparr>,
               imag_t = \<lparr>data = [Fin 4, Fin 6], shape = [1, 1, 2, 1, 1]\<rparr>\<rparr>
     = Inr \<lparr>data = [Fin 3, Fin 5, Fin 4, Fin 6], shape = [1, 2, 2, 1]\<rparr>
   \<and> mask_t \<lparr>data = [Fin 3, Fin 5, Fin 4, Fin 6], shape = [1, 2, 2, 1]\<rparr>
     = Inr \<lparr>ureal_t = \<lparr>udata = [], ushape = [Some 1, Some 2, Some 1, Some 1, None]\<rparr>,
            uimag_t = \<lparr>udata = [], ushape = [Some 1, Some 2, Some 1, Some 1, None]\<rparr>\<rparr>
   \<and> [] \<noteq> [Fin 3, Fin 5]"
  by (simp add: magnitude_def mask_t_def dim_def Let_def zeros_def st_def rd_def zero_sample_def
      upt_conv_Cons eval_nat_numeral)

text \<open>
  C6, amended. For every complex tensor \<open>z\<close> of shape \<open>[B * S, C, Fr, T]\<close> whose two
  buffers hold \<open>B * S * C * Fr * T\<close> samples, \<open>magnitude z\<close> has shape
  \<open>[B * S, 2 * C, Fr, T]\<close>, and \<open>mask\<close> of the same buffer read with the source axis, in
  shape \<open>[B, S, 2 * C, Fr, T]\<close>, returns exactly the two buffers of \<open>z\<close>, in shape
  \<open>[B, S, C, Fr, T]\<close>.
\<close>

theorem magnitude_mask_round_trip:
  assumes lre: "length re = B * S * C * Fr * T" and lim: "length im = B * S * C * Fr * T"
  shows "\<exists>out. magnitude \<lparr>real_t = \<lparr>data = re, shape = [B * S, C, Fr, T]\<rparr>,
                          imag_t = \<lparr>data = im, shape = [B * S, C, Fr, T]\<rparr>\<rparr>
                 = Inr \<lparr>data = out, shape = [B * S, C * 2, Fr, T]\<rparr>
             \<and> mask_t \<lparr>data = out, shape = [B, S, C * 2, Fr, T]\<rparr>
                 = Inr \<lparr>ureal_t = \<lparr>udata = re, ushape = [Some B, Some S, Some C, Some Fr, Some T]\<rparr>,
                        uimag_t = \<lparr>udata = im, ushape = [Some B, Some S, Some C, Some Fr, Some T]\<rparr>\<rparr>"
proof -
  let ?z = "\<lparr>real_t = \<lparr>data = re, shape = [B * S, C, Fr, T]\<rparr>,
             imag_t = \<lparr>data = im, shape = [B * S, C, Fr, T]\<rparr>\<rparr>"
  define R where "R = Fr * T"
  from magnitude_nth[of ?z "B * S" C Fr T] lre lim
  obtain out where mag: "magnitude ?z = Inr \<lparr>data = out, shape = [B * S, C * 2, Fr, T]\<rparr>"
    and lout: "length out = B * S * C * 2 * Fr * T"
    and out: "\<And>k. k < B * S * C * 2 * Fr * T \<Longrightarrow> out ! k = interleaved R re im k"
    unfolding R_def by auto
  let ?m = "\<lparr>data = out, shape = [B, S, C * 2, Fr, T]\<rparr>"
  have "shape ?m = [B, S, 2 * C, Fr, T]" by (simp add: mult.commute)
  moreover have "length (data ?m) = B * S * (2 * C) * Fr * T" using lout by (simp add: algebra_simps)
  ultimately obtain ro io where msk: "mask_t ?m
      = Inr \<lparr>ureal_t = \<lparr>udata = ro, ushape = [Some B, Some S, Some C, Some Fr, Some T]\<rparr>,
             uimag_t = \<lparr>udata = io, ushape = [Some B, Some S, Some C, Some Fr, Some T]\<rparr>\<rparr>"
    and lro: "length ro = B * S * C * Fr * T" "length io = B * S * C * Fr * T"
    and nth: "\<And>k. k < B * S * C * Fr * T \<Longrightarrow>
                 ro ! k = out ! ((2 * (k div R)) * R + k mod R)
               \<and> io ! k = out ! (Suc (2 * (k div R)) * R + k mod R)"
    using mask_t_nth[of ?m B S C Fr T] unfolding R_def by auto
  have pt: "ro ! k = re ! k \<and> io ! k = im ! k" if k: "k < B * S * C * Fr * T" for k
  proof -
    have kR: "k < (B * S * C) * R" using k by (simp add: R_def algebra_simps)
    then have R0: "0 < R" by (cases R) auto
    have q: "k div R < B * S * C" using kR R0 by (simp add: less_mult_imp_div_less)
    have \<rho>: "k mod R < R" using R0 by simp
    have "Suc (2 * (k div R)) * R + k mod R < Suc (Suc (2 * (k div R))) * R" using \<rho> by simp
    also have "\<dots> \<le> (2 * (B * S * C)) * R" using q by (intro mult_le_mono1) simp
    finally have i2: "Suc (2 * (k div R)) * R + k mod R < B * S * C * 2 * Fr * T"
      by (simp add: R_def algebra_simps)
    have "(2 * (k div R)) * R + k mod R \<le> Suc (2 * (k div R)) * R + k mod R" by simp
    with i2 have i1: "(2 * (k div R)) * R + k mod R < B * S * C * 2 * Fr * T" by linarith
    have e: "even (2 * (k div R))" "(2 * (k div R)) div 2 = k div R"
      "\<not> even (Suc (2 * (k div R)))" "Suc (2 * (k div R)) div 2 = k div R" by simp_all
    have "ro ! k = re ! (k div R * R + k mod R)"
      using nth[OF k] out[OF i1] e unfolding interleaved_def div_mod_block[OF \<rho>] by simp
    moreover have "io ! k = im ! (k div R * R + k mod R)"
      using nth[OF k] out[OF i2] e unfolding interleaved_def div_mod_block[OF \<rho>] by simp
    ultimately show ?thesis by simp
  qed
  have "ro = re" using lro lre pt by (intro nth_equalityI) simp_all
  moreover have "io = im" using lro lim pt by (intro nth_equalityI) simp_all
  ultimately show ?thesis using mag msk by blast
qed

theorem magnitude_mask_round_trip_witness:
  "\<exists>out. magnitude \<lparr>real_t = \<lparr>data = [Fin 3, Fin 5], shape = [1 * 1, 2, 1, 1]\<rparr>,
                     imag_t = \<lparr>data = [Fin 4, Fin 6], shape = [1 * 1, 2, 1, 1]\<rparr>\<rparr>
            = Inr \<lparr>data = out, shape = [1 * 1, 2 * 2, 1, 1]\<rparr>
        \<and> mask_t \<lparr>data = out, shape = [1, 1, 2 * 2, 1, 1]\<rparr>
            = Inr \<lparr>ureal_t = \<lparr>udata = [Fin 3, Fin 5], ushape = [Some 1, Some 1, Some 2, Some 1, Some 1]\<rparr>,
                   uimag_t = \<lparr>udata = [Fin 4, Fin 6], ushape = [Some 1, Some 1, Some 2, Some 1, Some 1]\<rparr>\<rparr>"
  using magnitude_mask_round_trip[of "[Fin 3, Fin 5]" 1 1 2 1 1 "[Fin 4, Fin 6]"] by simp

section \<open>The shapes of pad1d, stft, spectro and spec\<close>



lemma last_set_last [simp]: "sh \<noteq> [] \<Longrightarrow> last (set_last sh v) = v"
  by (simp add: set_last_def last_list_update)

lemma set_last_set_last [simp]: "set_last (set_last sh a) b = set_last sh b"
  by (simp add: set_last_def)

lemma set_last_Nil_iff [simp]: "set_last sh v = [] \<longleftrightarrow> sh = []"
  by (simp add: set_last_def)

lemma butlast_set_last [simp]: "butlast (set_last sh v) = butlast sh"
  by (cases sh rule: rev_cases) (simp_all add: set_last_def)





lemma bind_err_Inr [simp]: "bind_err (Inr v) f = f v"
  by (simp add: bind_err_def)











subsection \<open>Copying a block of rows\<close>









end
